theory Spec2Isabelle
  imports Main
begin

section \<open>JavaScript strings\<close>

text \<open>
  A JavaScript string is a sequence of UTF-16 code units. A code unit is modelled as a
  natural number, so that the whitespace of \<^verbatim>\<open>String.prototype.trim\<close> and of the regular
  expression class \<^verbatim>\<open>\s\<close> (which lie beyond Latin-1) and the \<^verbatim>\<open>\uXXXX\<close> escapes of JSON
  are the real ones. \<open>str\<close> turns a literal into its code units.
\<close>

type_synonym jsstring = "nat list"

definition str :: "string \<Rightarrow> jsstring" where
  "str s = map of_char s"

section \<open>PromptAssembler: \<^verbatim>\<open>prependSystemPromptToMessages\<close> (polyfill.ts)\<close>

text \<open>
  A \<^verbatim>\<open>LanguageModelMessage\<close> has a role, a content that is either a string or an array of
  structured parts, and the optional \<^verbatim>\<open>prefix\<close> flag. The structured parts are left
  abstract (type \<open>'p\<close>); the built-in \<^verbatim>\<open>JSON.stringify\<close> applied to them is the parameter
  \<open>stringify\<close> of the model.
\<close>

datatype 'p content = Str jsstring | Parts 'p

record 'p message =
  role :: jsstring
  content :: "'p content"
  prefix :: "bool option"

text \<open>
  The function copies the array and replaces one slot by a fresh object, so whether the
  caller's array and message objects are touched depends on aliasing. The heap is explicit:
  an address is an index, allocation appends. An array holds addresses of message objects.
\<close>

record 'p heap =
  objects :: "'p message list"
  arrays :: "nat list list"

definition deref :: "'p heap \<Rightarrow> nat \<Rightarrow> 'p message list" where
  "deref h a = map (\<lambda>r. objects h ! r) (arrays h ! a)"

text \<open>\<^verbatim>\<open>Array.prototype.findIndex\<close>; \<open>None\<close> stands for the result \<^verbatim>\<open>-1\<close>.\<close>

fun findIndex :: "('a \<Rightarrow> bool) \<Rightarrow> 'a list \<Rightarrow> nat option" where
  "findIndex P [] = None"
| "findIndex P (x # xs) =
     (if P x then Some 0 else map_option Suc (findIndex P xs))"

text \<open>
  \<^verbatim>\<open>typeof firstUserMessage.content === 'string' ? firstUserMessage.content
     : JSON.stringify(firstUserMessage.content)\<close>
\<close>

definition originalContent :: "('p \<Rightarrow> jsstring) \<Rightarrow> 'p content \<Rightarrow> jsstring" where
  "originalContent stringify c = (case c of Str s \<Rightarrow> s | Parts p \<Rightarrow> stringify p)"

text \<open>
  The body of \<^verbatim>\<open>prependSystemPromptToMessages(messages, systemPrompt)\<close>, for \<open>messages\<close> an
  array (its declared type): \<^verbatim>\<open>[...messages]\<close> allocates the copy \<open>allPrompts\<close>; with a user
  message at index \<open>i\<close>, the object \<^verbatim>\<open>{...firstUserMessage, content: ...}\<close> is allocated and
  stored in slot \<open>i\<close> of the copy; otherwise a new user message is allocated and
  \<^verbatim>\<open>unshift\<close>ed onto the copy. The copy's address is returned with the heap.
\<close>

definition prependSystemPromptToMessages ::
  "('p \<Rightarrow> jsstring) \<Rightarrow> 'p heap \<Rightarrow> nat \<Rightarrow> jsstring \<Rightarrow> nat \<times> 'p heap" where
  "prependSystemPromptToMessages stringify h messages systemPrompt =
     (let allPrompts = length (arrays h);
          refs = arrays h ! messages;
          h1 = h\<lparr>arrays := arrays h @ [refs]\<rparr>;
          fresh = length (objects h1)
      in case findIndex (\<lambda>r. role (objects h1 ! r) = str ''user'') refs of
           Some firstUserMessageIndex \<Rightarrow>
             (let firstUserMessage = objects h1 ! (refs ! firstUserMessageIndex);
                  replaced = firstUserMessage\<lparr>content :=
                    Str (systemPrompt @ str ''\<newline>\<newline>''
                           @ originalContent stringify (content firstUserMessage))\<rparr>
              in (allPrompts,
                  h1\<lparr>objects := objects h1 @ [replaced],
                     arrays := (arrays h1)[allPrompts := refs[firstUserMessageIndex := fresh]]\<rparr>))
         | None \<Rightarrow>
             (allPrompts,
              h1\<lparr>objects := objects h1
                     @ [\<lparr>role = str ''user'', content = Str systemPrompt, prefix = None\<rparr>],
                 arrays := (arrays h1)[allPrompts := fresh # refs]\<rparr>))"

subsection \<open>Facts about \<open>findIndex\<close>\<close>

lemma findIndex_None_iff: "findIndex P xs = None \<longleftrightarrow> (\<forall>x \<in> set xs. \<not> P x)"
  by (induction xs) auto

lemma findIndex_Some_first:
  "findIndex P xs = Some i \<Longrightarrow> i < length xs \<and> P (xs ! i) \<and> (\<forall>j < i. \<not> P (xs ! j))"
proof (induction xs arbitrary: i)
  case Nil
  then show ?case by simp
next
  case (Cons x xs)
  show ?case
  proof (cases "P x")
    case True
    with Cons.prems show ?thesis by simp
  next
    case False
    with Cons.prems obtain k where k: "findIndex P xs = Some k" "i = Suc k"
      by auto
    from Cons.IH [OF k(1)] False k(2) show ?thesis
      by (auto simp: nth_Cons split: nat.splits)
  qed
qed

lemma findIndex_map: "findIndex P (map f xs) = findIndex (\<lambda>x. P (f x)) xs"
  by (induction xs) auto

lemma findIndex_Some_iff:
  "findIndex P xs = Some i \<longleftrightarrow> i < length xs \<and> P (xs ! i) \<and> (\<forall>j < i. \<not> P (xs ! j))"
proof
  assume "findIndex P xs = Some i"
  then show "i < length xs \<and> P (xs ! i) \<and> (\<forall>j < i. \<not> P (xs ! j))"
    by (rule findIndex_Some_first)
next
  assume r: "i < length xs \<and> P (xs ! i) \<and> (\<forall>j < i. \<not> P (xs ! j))"
  then have "\<exists>x \<in> set xs. P x" by (metis nth_mem)
  then obtain k where k: "findIndex P xs = Some k"
    using findIndex_None_iff [of P xs] by (cases "findIndex P xs") auto
  from findIndex_Some_first [OF k] r have "\<not> k < i" "\<not> i < k" by auto
  then show "findIndex P xs = Some i" using k by simp
qed

subsection \<open>Claim C9\<close>

text \<open>
  C9. \<^verbatim>\<open>prependSystemPromptToMessages\<close> returns a new array and mutates nothing: every object
  and every array that existed before the call (the caller's array and its messages among
  them) is unchanged in the heap afterwards, and the result is a freshly allocated array.
  When no message has role \<^verbatim>\<open>user\<close>, the result is the input sequence preceded by a new user
  message whose content is the instruction alone. When \<open>i\<close> is the first index with role
  \<^verbatim>\<open>user\<close>, the result is the input sequence with slot \<open>i\<close> replaced by that message with
  content \<^verbatim>\<open>instruction + "\n\n" + text\<close>, where text is the content itself when it is a
  string and its \<^verbatim>\<open>JSON.stringify\<close> form otherwise; role and the other fields of that
  message, and every other message, stay as they were and where they were.
\<close>

theorem prependSystemPromptToMessages_correct:
  assumes wf1: "messages < length (arrays h)"
    and wf2: "\<forall>r \<in> set (arrays h ! messages). r < length (objects h)"
    and run: "prependSystemPromptToMessages stringify h messages systemPrompt = (out, h')"
  shows "take (length (objects h)) (objects h') = objects h
       \<and> take (length (arrays h)) (arrays h') = arrays h
       \<and> out = length (arrays h)
       \<and> ((\<forall>m \<in> set (deref h messages). role m \<noteq> str ''user'') \<longrightarrow>
            deref h' out =
              \<lparr>role = str ''user'', content = Str systemPrompt, prefix = None\<rparr> # deref h messages)
       \<and> (\<forall>i t. i < length (deref h messages) \<and> role (deref h messages ! i) = str ''user''
                \<and> (\<forall>j < i. role (deref h messages ! j) \<noteq> str ''user'')
                \<and> content (deref h messages ! i) = Str t \<longrightarrow>
            deref h' out = (deref h messages)
              [i := (deref h messages ! i)\<lparr>content :=
                 Str (systemPrompt @ str ''\<newline>\<newline>'' @ t)\<rparr>])
       \<and> (\<forall>i p. i < length (deref h messages) \<and> role (deref h messages ! i) = str ''user''
                \<and> (\<forall>j < i. role (deref h messages ! j) \<noteq> str ''user'')
                \<and> content (deref h messages ! i) = Parts p \<longrightarrow>
            deref h' out = (deref h messages)
              [i := (deref h messages ! i)\<lparr>content :=
                 Str (systemPrompt @ str ''\<newline>\<newline>'' @ stringify p)\<rparr>])"
proof -
  let ?refs = "arrays h ! messages"
  let ?P = "\<lambda>r. role (objects h ! r) = str ''user''"
  have fi: "findIndex (\<lambda>r. role (objects (h\<lparr>arrays := arrays h @ [?refs]\<rparr>) ! r) = str ''user'') ?refs
            = findIndex (\<lambda>m. role m = str ''user'') (deref h messages)"
    by (simp add: deref_def findIndex_map)
  show ?thesis
  proof (cases "findIndex (\<lambda>m. role m = str ''user'') (deref h messages)")
    case None
    then have nouser: "\<forall>m \<in> set (deref h messages). role m \<noteq> str ''user''"
      by (simp add: findIndex_None_iff)
    from run None fi have res: "out = length (arrays h)"
      "h' = h\<lparr>objects := objects h
                 @ [\<lparr>role = str ''user'', content = Str systemPrompt, prefix = None\<rparr>],
             arrays := (arrays h @ [?refs])[length (arrays h) := length (objects h) # ?refs]\<rparr>"
      by (auto simp: prependSystemPromptToMessages_def Let_def)
    have d: "deref h' out =
        \<lparr>role = str ''user'', content = Str systemPrompt, prefix = None\<rparr> # deref h messages"
      using wf2 by (auto simp: res deref_def nth_append)
    from nouser have no_i: "\<not> (i < length (deref h messages) \<and> role (deref h messages ! i) = str ''user'')" for i
      by (metis nth_mem)
    show ?thesis using d no_i by (auto simp: res)
  next
    case (Some k)
    from findIndex_Some_first [OF Some]
    have k: "k < length (deref h messages)" "role (deref h messages ! k) = str ''user''"
      "\<forall>j < k. role (deref h messages ! j) \<noteq> str ''user''" by auto
    have klen: "k < length ?refs" using k(1) by (simp add: deref_def)
    have dk: "deref h messages ! k = objects h ! (?refs ! k)"
      using klen by (simp add: deref_def)
    from run Some fi have res: "out = length (arrays h)"
      "h' = h\<lparr>objects := objects h @ [(objects h ! (?refs ! k))\<lparr>content :=
                    Str (systemPrompt @ str ''\<newline>\<newline>''
                           @ originalContent stringify (content (objects h ! (?refs ! k))))\<rparr>],
             arrays := (arrays h @ [?refs])[length (arrays h) := ?refs[k := length (objects h)]]\<rparr>"
      by (auto simp: prependSystemPromptToMessages_def Let_def)
    have d: "deref h' out = (deref h messages)
              [k := (deref h messages ! k)\<lparr>content :=
                 Str (systemPrompt @ str ''\<newline>\<newline>''
                       @ originalContent stringify (content (deref h messages ! k)))\<rparr>]"
      unfolding dk using wf2 klen
      by (auto simp: res deref_def nth_append map_update intro!: nth_equalityI
               simp: nth_list_update dest: nth_mem set_update_subset_insert [THEN subsetD])
    have uniq: "i = k" if "i < length (deref h messages)" "role (deref h messages ! i) = str ''user''"
      "\<forall>j < i. role (deref h messages ! j) \<noteq> str ''user''" for i
      using that k by (metis linorder_neqE_nat)
    have hasuser: "\<not> (\<forall>m \<in> set (deref h messages). role m \<noteq> str ''user'')"
      using k(1,2) by (metis nth_mem)
    have dt: "deref h' out = (deref h messages)
              [k := (deref h messages ! k)\<lparr>content :=
                 Str (systemPrompt @ str ''\<newline>\<newline>'' @ t)\<rparr>]"
      if "content (deref h messages ! k) = Str t" for t
      using d that by (simp add: originalContent_def)
    have dp: "deref h' out = (deref h messages)
              [k := (deref h messages ! k)\<lparr>content :=
                 Str (systemPrompt @ str ''\<newline>\<newline>'' @ stringify p)\<rparr>]"
      if "content (deref h messages ! k) = Parts p" for p
      using d that by (simp add: originalContent_def)
    have old: "take (length (objects h)) (objects h') = objects h"
      "take (length (arrays h)) (arrays h') = arrays h"
      by (simp_all add: res)
    from old res(1) hasuser uniq dt dp show ?thesis by blast
  qed
qed

text \<open>
  The example of the specification, \<^verbatim>\<open>[{role:"assistant",content:"ok"}, {role:"user",content:"hi"}]\<close>
  with instruction \<^verbatim>\<open>"X"\<close>, and the same array with the user's content given as the array of
  parts \<^verbatim>\<open>[{type:"text",value:"hi"}]\<close>, whose \<^verbatim>\<open>JSON.stringify\<close> form is
  \<^verbatim>\<open>[{"type":"text","value":"hi"}]\<close>.
\<close>

theorem prependSystemPromptToMessages_witness:
  \<open>deref (snd (prependSystemPromptToMessages (\<lambda>u::unit. str ''[{"type":"text","value":"hi"}]'')
           \<lparr>objects = [\<lparr>role = str ''assistant'', content = Str (str ''ok''), prefix = None\<rparr>,
                       \<lparr>role = str ''user'', content = Str (str ''hi''), prefix = None\<rparr>,
                       \<lparr>role = str ''user'', content = Parts (), prefix = None\<rparr>],
            arrays = [[0, 1], [0, 2]]\<rparr> 0 (str ''X'')))
         (fst (prependSystemPromptToMessages (\<lambda>u::unit. str ''[{"type":"text","value":"hi"}]'')
           \<lparr>objects = [\<lparr>role = str ''assistant'', content = Str (str ''ok''), prefix = None\<rparr>,
                       \<lparr>role = str ''user'', content = Str (str ''hi''), prefix = None\<rparr>,
                       \<lparr>role = str ''user'', content = Parts (), prefix = None\<rparr>],
            arrays = [[0, 1], [0, 2]]\<rparr> 0 (str ''X'')))
     = [\<lparr>role = str ''assistant'', content = Str (str ''ok''), prefix = None\<rparr>,
        \<lparr>role = str ''user'', content = Str (str ''X\<newline>\<newline>hi''), prefix = None\<rparr>]
   \<and> deref (snd (prependSystemPromptToMessages (\<lambda>u::unit. str ''[{"type":"text","value":"hi"}]'')
           \<lparr>objects = [\<lparr>role = str ''assistant'', content = Str (str ''ok''), prefix = None\<rparr>,
                       \<lparr>role = str ''user'', content = Str (str ''hi''), prefix = None\<rparr>,
                       \<lparr>role = str ''user'', content = Parts (), prefix = None\<rparr>],
            arrays = [[0, 1], [0, 2]]\<rparr> 1 (str ''X'')))
         (fst (prependSystemPromptToMessages (\<lambda>u::unit. str ''[{"type":"text","value":"hi"}]'')
           \<lparr>objects = [\<lparr>role = str ''assistant'', content = Str (str ''ok''), prefix = None\<rparr>,
                       \<lparr>role = str ''user'', content = Str (str ''hi''), prefix = None\<rparr>,
                       \<lparr>role = str ''user'', content = Parts (), prefix = None\<rparr>],
            arrays = [[0, 1], [0, 2]]\<rparr> 1 (str ''X'')))
     = [\<lparr>role = str ''assistant'', content = Str (str ''ok''), prefix = None\<rparr>,
        \<lparr>role = str ''user'', content = Str (str ''X\<newline>\<newline>[{"type":"text","value":"hi"}]''),
         prefix = None\<rparr>]
   \<and> take 3 (objects (snd (prependSystemPromptToMessages (\<lambda>u::unit. str ''[{"type":"text","value":"hi"}]'')
           \<lparr>objects = [\<lparr>role = str ''assistant'', content = Str (str ''ok''), prefix = None\<rparr>,
                       \<lparr>role = str ''user'', content = Str (str ''hi''), prefix = None\<rparr>,
                       \<lparr>role = str ''user'', content = Parts (), prefix = None\<rparr>],
            arrays = [[0, 1], [0, 2]]\<rparr> 1 (str ''X''))))
     = [\<lparr>role = str ''assistant'', content = Str (str ''ok''), prefix = None\<rparr>,
        \<lparr>role = str ''user'', content = Str (str ''hi''), prefix = None\<rparr>,
        \<lparr>role = str ''user'', content = Parts (), prefix = None\<rparr>]\<close>
proof -
  define stringify :: "unit \<Rightarrow> jsstring"
    where \<open>stringify = (\<lambda>u. str ''[{"type":"text","value":"hi"}]'')\<close>
  define h :: "unit heap" where
    "h = \<lparr>objects = [\<lparr>role = str ''assistant'', content = Str (str ''ok''), prefix = None\<rparr>,
                     \<lparr>role = str ''user'', content = Str (str ''hi''), prefix = None\<rparr>,
                     \<lparr>role = str ''user'', content = Parts (), prefix = None\<rparr>],
          arrays = [[0, 1], [0, 2]]\<rparr>"
  define r0 where "r0 = prependSystemPromptToMessages stringify h 0 (str ''X'')"
  define r1 where "r1 = prependSystemPromptToMessages stringify h 1 (str ''X'')"
  have wf0: "0 < length (arrays h)" and wf1: "1 < length (arrays h)" by (simp_all add: h_def)
  have in0: "\<forall>r \<in> set (arrays h ! 0). r < length (objects h)"
    and in1: "\<forall>r \<in> set (arrays h ! 1). r < length (objects h)" by (simp_all add: h_def)
  have run0: "prependSystemPromptToMessages stringify h 0 (str ''X'') = (fst r0, snd r0)"
    by (simp add: r0_def)
  have run1: "prependSystemPromptToMessages stringify h 1 (str ''X'') = (fst r1, snd r1)"
    by (simp add: r1_def)
  have d0: "deref h 0 = [objects h ! 0, objects h ! 1]"
    and d1: "deref h 1 = [objects h ! 0, objects h ! 2]" by (simp_all add: deref_def h_def)
  have first0: "1 < length (deref h 0) \<and> role (deref h 0 ! 1) = str ''user''
      \<and> (\<forall>j < 1. role (deref h 0 ! j) \<noteq> str ''user'') \<and> content (deref h 0 ! 1) = Str (str ''hi'')"
    unfolding d0 by (simp add: h_def str_def)
  have first1: "1 < length (deref h 1) \<and> role (deref h 1 ! 1) = str ''user''
      \<and> (\<forall>j < 1. role (deref h 1 ! j) \<noteq> str ''user'') \<and> content (deref h 1 ! 1) = Parts ()"
    unfolding d1 by (simp add: h_def str_def)
  from prependSystemPromptToMessages_correct [OF wf0 in0 run0] first0
  have a: "deref (snd r0) (fst r0) = (deref h 0)
          [1 := (deref h 0 ! 1)\<lparr>content := Str (str ''X'' @ str ''\<newline>\<newline>'' @ str ''hi'')\<rparr>]"
    by blast
  from prependSystemPromptToMessages_correct [OF wf1 in1 run1] first1
  have b: "take (length (objects h)) (objects (snd r1)) = objects h"
    and c: "deref (snd r1) (fst r1) = (deref h 1)
          [1 := (deref h 1 ! 1)\<lparr>content := Str (str ''X'' @ str ''\<newline>\<newline>'' @ stringify ())\<rparr>]"
    by blast+
  have l: "length (objects h) = 3" by (simp add: h_def)
  from a b c show ?thesis
    unfolding r0_def [symmetric] r1_def [symmetric] h_def [symmetric] stringify_def [symmetric]
    unfolding l [symmetric] d0 d1
    by (simp add: h_def stringify_def str_def)
qed

section \<open>JavaScript values and the built-ins the parser uses\<close>

text \<open>
  What \<^verbatim>\<open>JSON.parse\<close> returns, and \<^verbatim>\<open>undefined\<close>, which reading a missing property yields.
  A number is kept as the decimal it was written as: \<open>JNum m e\<close> stands for \<open>m * 10 ^ e\<close>.
  An object is the list of its own properties; \<open>obj_put\<close> is the \<^verbatim>\<open>CreateDataProperty\<close> of
  \<^verbatim>\<open>JSON.parse\<close>: a repeated key keeps its place and takes the later value.
\<close>

datatype jsval =
    JUndefined
  | JNull
  | JBool bool
  | JNum int int
  | JStr jsstring
  | JArr "jsval list"
  | JObj "(jsstring \<times> jsval) list"

fun obj_put :: "jsstring \<Rightarrow> jsval \<Rightarrow> (jsstring \<times> jsval) list \<Rightarrow> (jsstring \<times> jsval) list" where
  "obj_put k v [] = [(k, v)]"
| "obj_put k v ((k', v') # kvs) =
     (if k = k' then (k, v) # kvs else (k', v') # obj_put k v kvs)"

text \<open>The exceptions that the code under study can meet.\<close>

datatype exn = SyntaxError | TypeError

text \<open>
  \<^verbatim>\<open>ToBoolean\<close>, the test behind \<^verbatim>\<open>if (x)\<close> and \<^verbatim>\<open>a && b\<close>. A number is falsy when it is
  \<open>0\<close>; the number \<^verbatim>\<open>JSON.parse\<close> makes of a decimal is the nearest double, ties to even, so
  it is \<open>0\<close> exactly when the decimal's magnitude is at most \<open>2 ^ -1075\<close>, half the least
  positive double.
\<close>

definition rounds_to_zero :: "int \<Rightarrow> int \<Rightarrow> bool" where
  "rounds_to_zero m e =
     (if 0 \<le> e then m = 0 else \<bar>m\<bar> * 2 ^ 1075 \<le> 10 ^ nat (- e))"

fun ToBoolean :: "jsval \<Rightarrow> bool" where
  "ToBoolean JUndefined = False"
| "ToBoolean JNull = False"
| "ToBoolean (JBool b) = b"
| "ToBoolean (JNum m e) = (\<not> rounds_to_zero m e)"
| "ToBoolean (JStr s) = (s \<noteq> [])"
| "ToBoolean (JArr xs) = True"
| "ToBoolean (JObj kvs) = True"

text \<open>\<^verbatim>\<open>typeof v === 'string'\<close>, \<^verbatim>\<open>Array.isArray(v)\<close>, and the elements of an array.\<close>

fun is_string :: "jsval \<Rightarrow> bool" where
  "is_string (JStr s) = True"
| "is_string v = False"

fun isArray :: "jsval \<Rightarrow> bool" where
  "isArray (JArr xs) = True"
| "isArray v = False"

fun elements :: "jsval \<Rightarrow> jsval list" where
  "elements (JArr xs) = xs"
| "elements v = []"

text \<open>
  Reading a property, \<^verbatim>\<open>v.k\<close>: a \<^verbatim>\<open>TypeError\<close> on \<^verbatim>\<open>null\<close> and \<^verbatim>\<open>undefined\<close>; an object's own
  property, or \<^verbatim>\<open>undefined\<close>. The code reads only \<^verbatim>\<open>output\<close>, \<^verbatim>\<open>type\<close>, \<^verbatim>\<open>callId\<close>, \<^verbatim>\<open>name\<close> and
  \<^verbatim>\<open>arguments\<close>, which no prototype of a value that \<^verbatim>\<open>JSON.parse\<close> returns defines, so on
  arrays, strings, numbers and booleans the result is \<^verbatim>\<open>undefined\<close>.
\<close>

fun get_prop :: "jsval \<Rightarrow> jsstring \<Rightarrow> exn + jsval" where
  "get_prop JUndefined k = Inl TypeError"
| "get_prop JNull k = Inl TypeError"
| "get_prop (JObj kvs) k = Inr (case map_of kvs k of Some v \<Rightarrow> v | None \<Rightarrow> JUndefined)"
| "get_prop v k = Inr JUndefined"

subsection \<open>\<^verbatim>\<open>trim\<close>, \<^verbatim>\<open>startsWith\<close>, \<^verbatim>\<open>includes\<close>\<close>

text \<open>
  The white space and line terminators of ECMAScript, which \<^verbatim>\<open>trim\<close> strips and \<^verbatim>\<open>\s\<close>
  matches: TAB, LF, VT, FF, CR, SP, NBSP, U+1680, U+2000 to U+200A, U+2028, U+2029, U+202F,
  U+205F, U+3000, U+FEFF.
\<close>

definition is_ws :: "nat \<Rightarrow> bool" where
  "is_ws c \<longleftrightarrow> c = 9 \<or> c = 10 \<or> c = 11 \<or> c = 12 \<or> c = 13 \<or> c = 32 \<or> c = 160
     \<or> c = 5760 \<or> (8192 \<le> c \<and> c \<le> 8202) \<or> c = 8232 \<or> c = 8233 \<or> c = 8239
     \<or> c = 8287 \<or> c = 12288 \<or> c = 65279"

definition trim :: "jsstring \<Rightarrow> jsstring" where
  "trim s = rev (dropWhile is_ws (rev (dropWhile is_ws s)))"

definition startsWith :: "jsstring \<Rightarrow> jsstring \<Rightarrow> bool" where
  "startsWith s p \<longleftrightarrow> take (length p) s = p"

fun str_includes :: "jsstring \<Rightarrow> jsstring \<Rightarrow> bool" where
  "str_includes [] p = (p = [])"
| "str_includes (x # xs) p = (startsWith (x # xs) p \<or> str_includes xs p)"

subsection \<open>Regular expressions\<close>

text \<open>
  The two patterns of the code are sequences of literals, optional literals, one greedy
  star over a character class and one lazy star, which is the capture group. The matcher
  is the backtracking matcher of ECMAScript on such sequences: an optional literal and a
  greedy star try the longer match first and fall back, a lazy star tries the shorter match
  first. \<open>rmatch rs s\<close> matches \<open>rs\<close> at the start of \<open>s\<close> and returns the matched text and
  the text of the group. \<open>re_match\<close> is \<^verbatim>\<open>s.match(re)\<close> for a pattern without the \<^verbatim>\<open>g\<close> flag:
  the match at the leftmost position that has one; \<open>None\<close> stands for \<^verbatim>\<open>null\<close>.
\<close>

datatype cclass = AnyChar | Space

fun in_class :: "cclass \<Rightarrow> nat \<Rightarrow> bool" where
  "in_class AnyChar c = True"
| "in_class Space c = is_ws c"

datatype ritem =
    Lit jsstring
  | OptLit jsstring
  | StarGreedy cclass
  | GroupLazy cclass

fun rmatch :: "ritem list \<Rightarrow> jsstring \<Rightarrow> (jsstring \<times> jsstring) option" where
  "rmatch [] s = Some ([], [])"
| "rmatch (Lit l # rs) s =
     (if startsWith s l
      then (case rmatch rs (drop (length l) s) of
              Some (m, g) \<Rightarrow> Some (l @ m, g) | None \<Rightarrow> None)
      else None)"
| "rmatch (OptLit l # rs) s =
     (case (if startsWith s l
            then (case rmatch rs (drop (length l) s) of
                    Some (m, g) \<Rightarrow> Some (l @ m, g) | None \<Rightarrow> None)
            else None) of
        Some r \<Rightarrow> Some r
      | None \<Rightarrow> rmatch rs s)"
| "rmatch (StarGreedy C # rs) [] = rmatch rs []"
| "rmatch (StarGreedy C # rs) (x # xs) =
     (case (if in_class C x
            then (case rmatch (StarGreedy C # rs) xs of
                    Some (m, g) \<Rightarrow> Some (x # m, g) | None \<Rightarrow> None)
            else None) of
        Some r \<Rightarrow> Some r
      | None \<Rightarrow> rmatch rs (x # xs))"
| "rmatch (GroupLazy C # rs) [] =
     (case rmatch rs [] of Some (m, g) \<Rightarrow> Some (m, []) | None \<Rightarrow> None)"
| "rmatch (GroupLazy C # rs) (x # xs) =
     (case rmatch rs (x # xs) of
        Some (m, g) \<Rightarrow> Some (m, [])
      | None \<Rightarrow>
          (if in_class C x
           then (case rmatch (GroupLazy C # rs) xs of
                   Some (m, g) \<Rightarrow> Some (x # m, x # g) | None \<Rightarrow> None)
           else None))"

fun re_match :: "ritem list \<Rightarrow> jsstring \<Rightarrow> (jsstring \<times> jsstring) option" where
  "re_match rs [] = rmatch rs []"
| "re_match rs (x # xs) =
     (case rmatch rs (x # xs) of Some r \<Rightarrow> Some r | None \<Rightarrow> re_match rs xs)"

text \<open>
  The two patterns: a fenced block, three backquotes, an optional \<^verbatim>\<open>json\<close>, \<^verbatim>\<open>\s*\<close>, \<^verbatim>\<open>\n?\<close>,
  the group \<^verbatim>\<open>([\s\S]*?)\<close>, \<^verbatim>\<open>\n?\<close> and three backquotes; and \<^verbatim>\<open>/\{[\s\S]*\}/\<close>.
\<close>

definition codeBlock_re :: "ritem list" where
  "codeBlock_re = [Lit (str ''```''), OptLit (str ''json''), StarGreedy Space,
     OptLit (str ''\<newline>''), GroupLazy AnyChar, OptLit (str ''\<newline>''), Lit (str ''```'')]"

definition object_re :: "ritem list" where
  "object_re = [Lit (str ''{''), StarGreedy AnyChar, Lit (str ''}'')]"

section \<open>JSON.parse\<close>

text \<open>
  The built-in \<^verbatim>\<open>JSON.parse(text)\<close> (no reviver), after the JSON grammar of ECMA-404: the
  text is cut into tokens, and a pushdown automaton over the tokens builds the value. The
  result is the value, or the \<^verbatim>\<open>SyntaxError\<close> that \<^verbatim>\<open>JSON.parse\<close> throws.
\<close>

datatype token =
    TLBrace | TRBrace | TLBrack | TRBrack | TColon | TComma
  | TString jsstring | TNumber int int | TTrue | TFalse | TNull

text \<open>JSON white space is SP, TAB, LF and CR only.\<close>

definition is_json_ws :: "nat \<Rightarrow> bool" where
  "is_json_ws c \<longleftrightarrow> c = 32 \<or> c = 9 \<or> c = 10 \<or> c = 13"

definition is_digit :: "nat \<Rightarrow> bool" where
  "is_digit c \<longleftrightarrow> 48 \<le> c \<and> c \<le> 57"

definition is_numchar :: "nat \<Rightarrow> bool" where
  "is_numchar c \<longleftrightarrow> is_digit c \<or> c = 43 \<or> c = 45 \<or> c = 46 \<or> c = 69 \<or> c = 101"

definition digits_val :: "jsstring \<Rightarrow> int" where
  "digits_val ds = foldl (\<lambda>a d. 10 * a + (int d - 48)) 0 ds"

definition hex_val :: "nat \<Rightarrow> nat option" where
  "hex_val c =
     (if 48 \<le> c \<and> c \<le> 57 then Some (c - 48)
      else if 65 \<le> c \<and> c \<le> 70 then Some (c - 55)
      else if 97 \<le> c \<and> c \<le> 102 then Some (c - 87)
      else None)"

definition unescape :: "nat \<Rightarrow> nat option" where
  "unescape c =
     (if c = 34 \<or> c = 92 \<or> c = 47 then Some c
      else if c = 98 then Some 8
      else if c = 102 then Some 12
      else if c = 110 then Some 10
      else if c = 114 then Some 13
      else if c = 116 then Some 9
      else None)"

text \<open>
  A string token, read after its opening quote: up to the closing quote, with the
  two-character escapes (backslash and one of quote, backslash, slash, b, f, n, r, t) and the
  escape \<^verbatim>\<open>\uXXXX\<close> of a code unit; a control character below U+0020 is refused.
  The result is the string and the rest of the text.
\<close>

definition hex4 :: "jsstring \<Rightarrow> nat option" where
  "hex4 cs =
     (case map hex_val (take 4 cs) of
        [Some a, Some b, Some c, Some d] \<Rightarrow> Some (((a * 16 + b) * 16 + c) * 16 + d)
      | _ \<Rightarrow> None)"

fun lex_string :: "jsstring \<Rightarrow> jsstring \<Rightarrow> (jsstring \<times> jsstring) option" where
  "lex_string [] acc = None"
| "lex_string [c] acc = (if c = 34 then Some (rev acc, []) else None)"
| "lex_string (c # d # cs) acc =
     (if c = 34 then Some (rev acc, d # cs)
      else if c = 92 then
        (if d = 117 then
           (case hex4 cs of
              Some u \<Rightarrow> lex_string (drop 4 cs) (u # acc)
            | None \<Rightarrow> None)
         else (case unescape d of
                 Some u \<Rightarrow> lex_string cs (u # acc)
               | None \<Rightarrow> None))
      else if c < 32 then None
      else lex_string (d # cs) (c # acc))"

text \<open>
  A number token is the longest run of the characters a number is written with, which
  must read \<^verbatim>\<open>-? (0 | [1-9][0-9]*) (. [0-9]+)? ([eE] [+-]? [0-9]+)?\<close>; its value is
  mantissa and decimal exponent.
\<close>

definition lex_number :: "jsstring \<Rightarrow> (int \<times> int) option" where
  "lex_number lexeme =
     (let neg = (lexeme \<noteq> [] \<and> hd lexeme = 45);
          r0 = (if neg then tl lexeme else lexeme);
          ds = takeWhile is_digit r0;
          r1 = dropWhile is_digit r0;
          has_frac = (r1 \<noteq> [] \<and> hd r1 = 46);
          fs = (if has_frac then takeWhile is_digit (tl r1) else []);
          r2 = (if has_frac then dropWhile is_digit (tl r1) else r1);
          has_exp = (r2 \<noteq> [] \<and> (hd r2 = 101 \<or> hd r2 = 69));
          r3 = (if has_exp then tl r2 else r2);
          eneg = (has_exp \<and> r3 \<noteq> [] \<and> hd r3 = 45);
          es = (if has_exp \<and> r3 \<noteq> [] \<and> (hd r3 = 45 \<or> hd r3 = 43) then tl r3 else r3);
          m = digits_val (ds @ fs);
          e = (if has_exp then digits_val es else 0)
      in if ds = [] \<or> (hd ds = 48 \<and> length ds \<noteq> 1) then None
         else if has_frac \<and> fs = [] then None
         else if has_exp \<and> (es = [] \<or> \<not> list_all is_digit es) then None
         else if \<not> has_exp \<and> r2 \<noteq> [] then None
         else Some (if neg then - m else m, (if eneg then - e else e) - int (length fs)))"

lemma lex_string_length:
  "lex_string cs acc = Some (s, rest) \<Longrightarrow> length rest < length cs"
  by (induction cs acc rule: lex_string.induct)
     (auto split: if_splits list.splits option.splits)

function tokenize :: "jsstring \<Rightarrow> token list option" where
  "tokenize [] = Some []"
| "tokenize (c # cs) =
     (if is_json_ws c then tokenize cs
      else if c = 123 then map_option ((#) TLBrace) (tokenize cs)
      else if c = 125 then map_option ((#) TRBrace) (tokenize cs)
      else if c = 91 then map_option ((#) TLBrack) (tokenize cs)
      else if c = 93 then map_option ((#) TRBrack) (tokenize cs)
      else if c = 58 then map_option ((#) TColon) (tokenize cs)
      else if c = 44 then map_option ((#) TComma) (tokenize cs)
      else if c = 34 then
        (case lex_string cs [] of
           None \<Rightarrow> None
         | Some (s, rest) \<Rightarrow> map_option ((#) (TString s)) (tokenize rest))
      else if c = 45 \<or> is_digit c then
        (case lex_number (c # takeWhile is_numchar cs) of
           None \<Rightarrow> None
         | Some (m, e) \<Rightarrow> map_option ((#) (TNumber m e)) (tokenize (dropWhile is_numchar cs)))
      else if c = 116 \<and> take 3 cs = str ''rue'' then
        map_option ((#) TTrue) (tokenize (drop 3 cs))
      else if c = 102 \<and> take 4 cs = str ''alse'' then
        map_option ((#) TFalse) (tokenize (drop 4 cs))
      else if c = 110 \<and> take 3 cs = str ''ull'' then
        map_option ((#) TNull) (tokenize (drop 3 cs))
      else None)"
  by pat_completeness auto
termination
proof (relation "measure length")
  fix c cs x2 x y
  assume "lex_string cs [] = Some x2" "(x, y) = x2"
  then have "lex_string cs [] = Some (x, y)" by simp
  then show "(y, c # cs) \<in> measure length"
    by (auto dest: lex_string_length)
next
  fix c cs
  have "length (dropWhile is_numchar cs) \<le> length cs" by (rule length_dropWhile_le)
  then show "(dropWhile is_numchar cs, c # cs) \<in> measure length" by simp
qed auto

text \<open>
  The automaton: a stack of the arrays and objects that are open (an object with a
  pending key once the key is read), and what may come next.
\<close>

datatype frame =
    FArr "jsval list"
  | FObj "(jsstring \<times> jsval) list"
  | FKey "(jsstring \<times> jsval) list" jsstring

datatype expect = Value | ValueOrEnd | KeyOrEnd | Key | Colon | CommaOrEnd

datatype pstate = Expect expect "frame list" | Finished jsval

fun deliver :: "jsval \<Rightarrow> frame list \<Rightarrow> pstate option" where
  "deliver v [] = Some (Finished v)"
| "deliver v (FArr es # st) = Some (Expect CommaOrEnd (FArr (es @ [v]) # st))"
| "deliver v (FKey ms k # st) = Some (Expect CommaOrEnd (FObj (obj_put k v ms) # st))"
| "deliver v (FObj ms # st) = None"

fun begin_value :: "token \<Rightarrow> frame list \<Rightarrow> pstate option" where
  "begin_value (TString s) st = deliver (JStr s) st"
| "begin_value (TNumber m e) st = deliver (JNum m e) st"
| "begin_value TTrue st = deliver (JBool True) st"
| "begin_value TFalse st = deliver (JBool False) st"
| "begin_value TNull st = deliver JNull st"
| "begin_value TLBrack st = Some (Expect ValueOrEnd (FArr [] # st))"
| "begin_value TLBrace st = Some (Expect KeyOrEnd (FObj [] # st))"
| "begin_value t st = None"

fun pstep :: "pstate \<Rightarrow> token \<Rightarrow> pstate option" where
  "pstep (Finished v) t = None"
| "pstep (Expect Value st) t = begin_value t st"
| "pstep (Expect ValueOrEnd (FArr es # st)) TRBrack = deliver (JArr es) st"
| "pstep (Expect ValueOrEnd st) t = begin_value t st"
| "pstep (Expect KeyOrEnd (FObj ms # st)) TRBrace = deliver (JObj ms) st"
| "pstep (Expect KeyOrEnd (FObj ms # st)) (TString k) = Some (Expect Colon (FKey ms k # st))"
| "pstep (Expect KeyOrEnd st) t = None"
| "pstep (Expect Key (FObj ms # st)) (TString k) = Some (Expect Colon (FKey ms k # st))"
| "pstep (Expect Key st) t = None"
| "pstep (Expect Colon st) TColon = Some (Expect Value st)"
| "pstep (Expect Colon st) t = None"
| "pstep (Expect CommaOrEnd (FArr es # st)) TComma = Some (Expect Value (FArr es # st))"
| "pstep (Expect CommaOrEnd (FArr es # st)) TRBrack = deliver (JArr es) st"
| "pstep (Expect CommaOrEnd (FObj ms # st)) TComma = Some (Expect Key (FObj ms # st))"
| "pstep (Expect CommaOrEnd (FObj ms # st)) TRBrace = deliver (JObj ms) st"
| "pstep (Expect CommaOrEnd st) t = None"

fun parse_tokens :: "pstate \<Rightarrow> token list \<Rightarrow> jsval option" where
  "parse_tokens (Finished v) [] = Some v"
| "parse_tokens (Expect ex st) [] = None"
| "parse_tokens ps (t # ts) =
     (case pstep ps t of None \<Rightarrow> None | Some ps' \<Rightarrow> parse_tokens ps' ts)"

definition JSON_parse :: "jsstring \<Rightarrow> exn + jsval" where
  "JSON_parse text =
     (case tokenize text of
        None \<Rightarrow> Inl SyntaxError
      | Some ts \<Rightarrow>
          (case parse_tokens (Expect Value []) ts of
             None \<Rightarrow> Inl SyntaxError
           | Some v \<Rightarrow> Inr v))"

section \<open>ToolCallParser: \<^verbatim>\<open>parseToolCallResponse\<close> (provider.ts)\<close>

text \<open>
  The text handed to \<^verbatim>\<open>JSON.parse\<close>: the trimmed response; replaced by the trimmed content
  of the first fenced block when the pattern matches; then, when it does not start with
  \<^verbatim>\<open>{\<close>, replaced by the span from its first \<^verbatim>\<open>{\<close> to its last \<^verbatim>\<open>}\<close> when there is one.
\<close>

definition extract_jsonText :: "jsstring \<Rightarrow> jsstring" where
  "extract_jsonText text =
     (let jsonText = trim text;
          jsonText = (case re_match codeBlock_re jsonText of
                        Some (m, g) \<Rightarrow> trim g
                      | None \<Rightarrow> jsonText)
      in if \<not> startsWith jsonText (str ''{'')
         then (case re_match object_re jsonText of
                 Some (m, g) \<Rightarrow> m
               | None \<Rightarrow> jsonText)
         else jsonText)"

text \<open>
  \<^verbatim>\<open>Array.prototype.every\<close> with a callback that may throw: it stops at the first element
  for which the callback is falsy.
\<close>

fun every :: "('a \<Rightarrow> exn + bool) \<Rightarrow> 'a list \<Rightarrow> exn + bool" where
  "every f [] = Inr True"
| "every f (x # xs) =
     (case f x of
        Inl e \<Rightarrow> Inl e
      | Inr b \<Rightarrow> if b then every f xs else Inr False)"

text \<open>
  The callback: \<^verbatim>\<open>item.type === 'function_call' && item.callId && item.name &&
  typeof item.arguments === 'string'\<close>, as \<^verbatim>\<open>every\<close> reads it (its truth value). Each property
  read throws on \<^verbatim>\<open>null\<close>.
\<close>

definition hasRequiredFields :: "jsval \<Rightarrow> exn + bool" where
  "hasRequiredFields item =
     (case get_prop item (str ''type'') of
        Inl e \<Rightarrow> Inl e
      | Inr t \<Rightarrow>
          if t \<noteq> JStr (str ''function_call'') then Inr False
          else (case get_prop item (str ''callId'') of
                  Inl e \<Rightarrow> Inl e
                | Inr c \<Rightarrow>
                    if \<not> ToBoolean c then Inr False
                    else (case get_prop item (str ''name'') of
                            Inl e \<Rightarrow> Inl e
                          | Inr n \<Rightarrow>
                              if \<not> ToBoolean n then Inr False
                              else (case get_prop item (str ''arguments'') of
                                      Inl e \<Rightarrow> Inl e
                                    | Inr a \<Rightarrow> Inr (is_string a)))))"

text \<open>
  The \<^verbatim>\<open>try\<close> block: parse, test \<^verbatim>\<open>parsed.output && Array.isArray(parsed.output)\<close>, validate
  every item, and return \<^verbatim>\<open>parsed.output\<close> itself or \<^verbatim>\<open>null\<close> (\<open>None\<close>). The calls of
  \<^verbatim>\<open>console\<close> have no part in the result and are left out.
\<close>

definition try_block :: "jsstring \<Rightarrow> exn + jsval list option" where
  "try_block jsonText =
     (case JSON_parse jsonText of
        Inl e \<Rightarrow> Inl e
      | Inr parsed \<Rightarrow>
          (case get_prop parsed (str ''output'') of
             Inl e \<Rightarrow> Inl e
           | Inr output \<Rightarrow>
               if ToBoolean output \<and> isArray output
               then (case every hasRequiredFields (elements output) of
                       Inl e \<Rightarrow> Inl e
                     | Inr isToolCallResponse \<Rightarrow>
                         if isToolCallResponse then Inr (Some (elements output))
                         else Inr None)
               else Inr None))"

text \<open>
  The whole function: whatever the \<^verbatim>\<open>try\<close> block throws, the \<^verbatim>\<open>catch\<close> block returns
  \<^verbatim>\<open>null\<close>. The result type keeps the exception case, so that not throwing is a property
  to prove and not one of the type.
\<close>

definition parseToolCallResponse :: "jsstring \<Rightarrow> exn + jsval list option" where
  "parseToolCallResponse text =
     (case try_block (extract_jsonText text) of
        Inl error \<Rightarrow> Inr None
      | Inr result \<Rightarrow> Inr result)"

section \<open>StreamReshaper: the transform of \<^verbatim>\<open>doStream\<close> (provider.ts)\<close>

text \<open>
  A \<^verbatim>\<open>LanguageModelV2StreamPart\<close>. The three text parts carry a string id (and a delta);
  the four tool parts the transform enqueues carry what it read from the parsed item, as
  JavaScript values; every other part of the union is opaque (\<open>Other\<close>).
\<close>

datatype 'x part =
    TextStart jsstring
  | TextDelta jsstring jsstring
  | TextEnd jsstring
  | ToolInputStart jsval jsval
  | ToolInputDelta jsval jsval
  | ToolInputEnd jsval
  | ToolCall jsval jsval jsval
  | Other 'x

text \<open>The two variables the transform closes over.\<close>

record rstate =
  bufferedText :: jsstring
  textId :: "jsstring option"

text \<open>
  The body of \<^verbatim>\<open>for (const call of toolCalls)\<close>: four \<^verbatim>\<open>controller.enqueue\<close> calls, reading
  \<^verbatim>\<open>call.callId\<close>, \<^verbatim>\<open>call.name\<close> and \<^verbatim>\<open>call.arguments\<close>.
\<close>

definition enqueue_call :: "jsval \<Rightarrow> exn + 'x part list" where
  "enqueue_call call =
     (case get_prop call (str ''callId'') of
        Inl e \<Rightarrow> Inl e
      | Inr callId \<Rightarrow>
          (case get_prop call (str ''name'') of
             Inl e \<Rightarrow> Inl e
           | Inr name \<Rightarrow>
               (case get_prop call (str ''arguments'') of
                  Inl e \<Rightarrow> Inl e
                | Inr arguments \<Rightarrow>
                    Inr [ToolInputStart callId name,
                         ToolInputDelta callId arguments,
                         ToolInputEnd callId,
                         ToolCall callId name arguments])))"

fun enqueue_calls :: "jsval list \<Rightarrow> exn + 'x part list" where
  "enqueue_calls [] = Inr []"
| "enqueue_calls (call # calls) =
     (case enqueue_call call of
        Inl e \<Rightarrow> Inl e
      | Inr evs \<Rightarrow>
          (case enqueue_calls calls of
             Inl e \<Rightarrow> Inl e
           | Inr rest \<Rightarrow> Inr (evs @ rest)))"

text \<open>
  \<^verbatim>\<open>transform(chunk, controller)\<close>: the new values of the two variables and the parts
  enqueued, in order. \<^verbatim>\<open>if (toolCalls)\<close> holds for every array, the empty one too;
  \<^verbatim>\<open>if (textId)\<close> fails for \<^verbatim>\<open>null\<close> and for the empty string.
\<close>

fun transform :: "rstate \<Rightarrow> 'x part \<Rightarrow> exn + (rstate \<times> 'x part list)" where
  "transform st (TextStart i) = Inr (st\<lparr>textId := Some i, bufferedText := []\<rparr>, [])"
| "transform st (TextDelta i delta) =
     Inr (st\<lparr>bufferedText := bufferedText st @ delta\<rparr>, [])"
| "transform st (TextEnd i) =
     (case parseToolCallResponse (bufferedText st) of
        Inl e \<Rightarrow> Inl e
      | Inr (Some toolCalls) \<Rightarrow>
          (case enqueue_calls toolCalls of
             Inl e \<Rightarrow> Inl e
           | Inr evs \<Rightarrow> Inr (st, evs))
      | Inr None \<Rightarrow>
          (case textId st of
             None \<Rightarrow> Inr (st, [])
           | Some t \<Rightarrow>
               if t \<noteq> []
               then Inr (st, [TextStart t, TextDelta t (bufferedText st), TextEnd t])
               else Inr (st, [])))"
| "transform st chunk = Inr (st, [chunk])"

text \<open>
  \<^verbatim>\<open>result.stream.pipeThrough(new TransformStream({transform}))\<close> on a finite stream: the
  chunks are transformed one after the other, and the enqueued parts are what the reader of
  the transformed stream sees, in that order. An exception of \<open>transform\<close> errors the stream.
\<close>

fun pipeThrough :: "rstate \<Rightarrow> 'x part list \<Rightarrow> exn + (rstate \<times> 'x part list)" where
  "pipeThrough st [] = Inr (st, [])"
| "pipeThrough st (chunk # chunks) =
     (case transform st chunk of
        Inl e \<Rightarrow> Inl e
      | Inr (st', out) \<Rightarrow>
          (case pipeThrough st' chunks of
             Inl e \<Rightarrow> Inl e
           | Inr (st'', outs) \<Rightarrow> Inr (st'', out @ outs)))"

definition doStream :: "'x part list \<Rightarrow> exn + 'x part list" where
  "doStream stream =
     (case pipeThrough \<lparr>bufferedText = [], textId = None\<rparr> stream of
        Inl e \<Rightarrow> Inl e
      | Inr (st, out) \<Rightarrow> Inr out)"

text \<open>
  Notions for stating the claims. \<open>field\<close> reads a property where no exception can
  arise; \<open>tool_parts\<close> are the four parts of one call; \<open>is_text\<close> holds of the three text
  parts, \<open>opens_or_closes\<close> of the two that delimit a segment; \<open>delta_of\<close> is the delta of
  a text delta and empty otherwise.
\<close>

definition field :: "jsval \<Rightarrow> jsstring \<Rightarrow> jsval" where
  "field v k = (case get_prop v k of Inr x \<Rightarrow> x | Inl e \<Rightarrow> JUndefined)"

definition tool_parts :: "jsval \<Rightarrow> 'x part list" where
  "tool_parts call =
     [ToolInputStart (field call (str ''callId'')) (field call (str ''name'')),
      ToolInputDelta (field call (str ''callId'')) (field call (str ''arguments'')),
      ToolInputEnd (field call (str ''callId'')),
      ToolCall (field call (str ''callId'')) (field call (str ''name''))
        (field call (str ''arguments''))]"

fun is_text :: "'x part \<Rightarrow> bool" where
  "is_text (TextStart i) = True"
| "is_text (TextDelta i d) = True"
| "is_text (TextEnd i) = True"
| "is_text p = False"

fun opens_or_closes :: "'x part \<Rightarrow> bool" where
  "opens_or_closes (TextStart i) = True"
| "opens_or_closes (TextEnd i) = True"
| "opens_or_closes p = False"

fun delta_of :: "'x part \<Rightarrow> jsstring" where
  "delta_of (TextDelta i d) = d"
| "delta_of p = []"

section \<open>Facts about the parser\<close>

subsection \<open>every\<close>

lemma every_True_iff: "every f xs = Inr True \<longleftrightarrow> list_all (\<lambda>x. f x = Inr True) xs"
  by (induction xs) (auto split: sum.splits)

subsection \<open>try block\<close>

lemma try_block_Some_iff:
  "try_block jsonText = Inr (Some items) \<longleftrightarrow>
     (\<exists>parsed. JSON_parse jsonText = Inr parsed
        \<and> get_prop parsed (str ''output'') = Inr (JArr items)
        \<and> list_all (\<lambda>item. hasRequiredFields item = Inr True) items)"
proof
  assume t: "try_block jsonText = Inr (Some items)"
  then obtain parsed where p: "JSON_parse jsonText = Inr parsed"
    by (cases "JSON_parse jsonText") (simp_all add: try_block_def)
  from t p obtain outp where o: "get_prop parsed (str ''output'') = Inr outp"
    by (cases "get_prop parsed (str ''output'')") (simp_all add: try_block_def)
  from t p o have a: "isArray outp"
    by (simp add: try_block_def split: if_splits)
  then obtain xs where xs: "outp = JArr xs" by (cases outp) auto
  from t p o xs have "every hasRequiredFields xs = Inr True \<and> items = xs"
    by (cases "every hasRequiredFields xs") (auto simp: try_block_def split: if_splits)
  with p o xs show "\<exists>parsed. JSON_parse jsonText = Inr parsed
        \<and> get_prop parsed (str ''output'') = Inr (JArr items)
        \<and> list_all (\<lambda>item. hasRequiredFields item = Inr True) items"
    by (auto simp: every_True_iff)
next
  assume "\<exists>parsed. JSON_parse jsonText = Inr parsed
        \<and> get_prop parsed (str ''output'') = Inr (JArr items)
        \<and> list_all (\<lambda>item. hasRequiredFields item = Inr True) items"
  then obtain parsed where "JSON_parse jsonText = Inr parsed"
    "get_prop parsed (str ''output'') = Inr (JArr items)"
    "every hasRequiredFields items = Inr True"
    by (auto simp: every_True_iff)
  then show "try_block jsonText = Inr (Some items)"
    by (simp add: try_block_def)
qed

lemma every_cases: "every f xs = Inr True \<or> every f xs = Inr False \<or> (\<exists>e. every f xs = Inl e)"
  by (cases "every f xs") auto

lemma try_block_invalid:
  assumes "JSON_parse jsonText = Inr parsed"
    and "get_prop parsed (str ''output'') = Inr (JArr items)"
    and "\<not> list_all (\<lambda>item. hasRequiredFields item = Inr True) items"
  shows "try_block jsonText = Inr None \<or> (\<exists>e. try_block jsonText = Inl e)"
proof -
  from assms(3) have "every hasRequiredFields items \<noteq> Inr True"
    by (simp add: every_True_iff)
  with every_cases [of hasRequiredFields items]
  have "every hasRequiredFields items = Inr False \<or> (\<exists>e. every hasRequiredFields items = Inl e)"
    by blast
  then show ?thesis
    using assms(1,2) by (auto simp: try_block_def)
qed

lemma parseToolCallResponse_total: "\<exists>r. parseToolCallResponse text = Inr r"
  by (simp add: parseToolCallResponse_def split: sum.splits)

lemma parseToolCallResponse_Some_iff:
  "parseToolCallResponse text = Inr (Some items) \<longleftrightarrow>
     try_block (extract_jsonText text) = Inr (Some items)"
  by (simp add: parseToolCallResponse_def split: sum.splits)


text \<open>The definitions that evaluate the parser on a given text.\<close>

lemmas js_eval = parseToolCallResponse_def extract_jsonText_def try_block_def JSON_parse_def
  trim_def is_ws_def startsWith_def codeBlock_re_def object_re_def str_def is_json_ws_def
  is_digit_def is_numchar_def unescape_def hex4_def hex_val_def lex_number_def digits_val_def
  hasRequiredFields_def rounds_to_zero_def Let_def

section \<open>Facts about the stream transform\<close>

lemma valid_is_object:
  "hasRequiredFields item = Inr True \<Longrightarrow> \<exists>kvs. item = JObj kvs"
  by (cases item) (simp_all add: hasRequiredFields_def)

lemma valid_get_prop:
  "hasRequiredFields item = Inr True \<Longrightarrow> get_prop item k = Inr (field item k)"
  by (auto dest!: valid_is_object simp: field_def)

lemma valid_fields:
  assumes "hasRequiredFields item = Inr True"
  shows "field item (str ''type'') = JStr (str ''function_call'')"
    and "ToBoolean (field item (str ''callId''))"
    and "ToBoolean (field item (str ''name''))"
    and "is_string (field item (str ''arguments''))"
proof -
  from valid_is_object [OF assms] obtain kvs where item: "item = JObj kvs" by blast
  have g: "get_prop item k = Inr (field item k)" for k
    using assms by (rule valid_get_prop)
  from assms show "field item (str ''type'') = JStr (str ''function_call'')"
    and "ToBoolean (field item (str ''callId''))"
    and "ToBoolean (field item (str ''name''))"
    and "is_string (field item (str ''arguments''))"
    unfolding hasRequiredFields_def g by (auto split: if_splits)
qed

lemma enqueue_call_valid:
  "hasRequiredFields call = Inr True \<Longrightarrow> enqueue_call call = Inr (tool_parts call)"
  by (simp add: enqueue_call_def valid_get_prop tool_parts_def)

lemma enqueue_calls_valid:
  "list_all (\<lambda>item. hasRequiredFields item = Inr True) calls \<Longrightarrow>
     enqueue_calls calls = Inr (concat (map tool_parts calls))"
  by (induction calls) (simp_all add: enqueue_call_valid)

lemma parse_Some_valid:
  "parseToolCallResponse text = Inr (Some items) \<Longrightarrow>
     list_all (\<lambda>item. hasRequiredFields item = Inr True) items"
  by (auto simp: parseToolCallResponse_Some_iff try_block_Some_iff)

lemma transform_total: "\<exists>st' out. transform st chunk = Inr (st', out)"
proof (cases chunk)
  case (TextEnd i)
  obtain r where r: "parseToolCallResponse (bufferedText st) = Inr r"
    using parseToolCallResponse_total by blast
  show ?thesis
  proof (cases r)
    case None
    with r TextEnd show ?thesis by (simp split: option.splits)
  next
    case (Some calls)
    from r Some have "parseToolCallResponse (bufferedText st) = Inr (Some calls)" by simp
    then have "enqueue_calls calls = (Inr (concat (map tool_parts calls)) :: exn + 'a part list)"
      by (intro enqueue_calls_valid parse_Some_valid)
    with r Some TextEnd show ?thesis by simp
  qed
qed simp_all

lemma pipeThrough_total: "\<exists>st' out. pipeThrough st chunks = Inr (st', out)"
proof (induction chunks arbitrary: st)
  case Nil
  show ?case by simp
next
  case (Cons c cs)
  obtain st1 o1 where 1: "transform st c = Inr (st1, o1)"
    using transform_total by blast
  obtain st2 o2 where 2: "pipeThrough st1 cs = Inr (st2, o2)"
    using Cons.IH by blast
  show ?case by (simp add: 1 2)
qed

lemma pipeThrough_append:
  "pipeThrough st (xs @ ys) =
     (case pipeThrough st xs of
        Inl e \<Rightarrow> Inl e
      | Inr (st', o1) \<Rightarrow>
          (case pipeThrough st' ys of
             Inl e \<Rightarrow> Inl e
           | Inr (st'', o2) \<Rightarrow> Inr (st'', o1 @ o2)))"
  by (induction xs arbitrary: st) (auto split: sum.splits)

lemma pipeThrough_body:
  "list_all (\<lambda>p. \<not> opens_or_closes p) body \<Longrightarrow>
     pipeThrough st body =
       Inr (st\<lparr>bufferedText := bufferedText st @ concat (map delta_of body)\<rparr>,
            filter (\<lambda>p. \<not> is_text p) body)"
proof (induction body arbitrary: st)
  case Nil
  show ?case by simp
next
  case (Cons p ps)
  then show ?case by (cases p) simp_all
qed

lemma pipeThrough_segment:
  fixes body :: "'x part list"
  assumes "list_all (\<lambda>p. \<not> opens_or_closes p) body"
  shows "pipeThrough st (TextStart i # body @ [TextEnd j]) =
     (case transform (st\<lparr>textId := Some i, bufferedText := concat (map delta_of body)\<rparr>) (TextEnd j) of
        Inl e \<Rightarrow> Inl e
      | Inr (st', out) \<Rightarrow> Inr (st', filter (\<lambda>p. \<not> is_text p) body @ out))"
proof -
  let ?st = "st\<lparr>textId := Some i, bufferedText := concat (map delta_of body)\<rparr>"
  have 1: "pipeThrough (st\<lparr>textId := Some i, bufferedText := []\<rparr>) body =
      Inr (?st, filter (\<lambda>p. \<not> is_text p) body)"
    by (simp add: pipeThrough_body [OF assms])
  obtain st' out where 2: "transform ?st (TextEnd j :: 'x part) = Inr (st', out)"
    using transform_total by blast
  have 3: "pipeThrough ?st [TextEnd j] = Inr (st', out)"
    using 2 by (simp del: transform.simps)
  have "pipeThrough st (TextStart i # body @ [TextEnd j]) =
      Inr (st', filter (\<lambda>p. \<not> is_text p) body @ out)"
    using 1 3 by (simp add: pipeThrough_append del: transform.simps(3))
  then show ?thesis using 2 by (simp del: transform.simps)
qed

lemma transform_passthrough: "\<not> is_text p \<Longrightarrow> transform st p = Inr (st, [p])"
  by (cases p) simp_all

lemma tool_parts_not_text: "list_all (\<lambda>p. \<not> is_text p) (tool_parts call)"
  by (simp add: tool_parts_def)

lemma concat_tool_parts_not_text:
  "list_all (\<lambda>p. \<not> is_text p) (concat (map tool_parts calls))"
  by (induction calls) (simp_all add: tool_parts_def)

section \<open>Facts about the extraction\<close>

text \<open>Three backquotes.\<close>

definition fence :: jsstring where
  "fence = str ''```''"

lemma fence_eq: "fence = [96, 96, 96]"
  by (simp add: fence_def str_def)

subsection \<open>startsWith, str_includes, trim\<close>

lemma startsWith_Nil [simp]: "startsWith s []"
  by (simp add: startsWith_def)

lemma startsWith_Cons_Cons [simp]:
  "startsWith (x # xs) (y # ys) \<longleftrightarrow> x = y \<and> startsWith xs ys"
  by (auto simp: startsWith_def)

lemma startsWith_Nil_left [simp]: "startsWith [] p \<longleftrightarrow> p = []"
  by (auto simp: startsWith_def)

lemma startsWith_append_same [simp]: "startsWith (p @ s) p"
  by (simp add: startsWith_def)

lemma drop_startsWith: "startsWith s p \<Longrightarrow> p @ drop (length p) s = s"
  by (metis append_take_drop_id startsWith_def)

lemma includes_suffix: "str_includes v p \<Longrightarrow> str_includes (u @ v) p"
  by (induction u) auto

lemma startsWith_append_left:
  "startsWith v p \<Longrightarrow> startsWith (v @ w) p"
  by (metis drop_startsWith startsWith_append_same append.assoc)

lemma includes_prefix: "str_includes v p \<Longrightarrow> str_includes (v @ w) p"
proof (induction v)
  case Nil
  then show ?case by (cases w) auto
next
  case (Cons x v)
  then show ?case by (auto dest: startsWith_append_left)
qed

lemma includes_middle: "str_includes v p \<Longrightarrow> str_includes (u @ v @ w) p"
  by (simp add: includes_prefix includes_suffix)

lemma includes_fence_backtick: "str_includes s fence \<Longrightarrow> 96 \<in> set s"
  by (induction s) (auto simp: fence_eq)

lemma not_is_ws_simps [simp]: "\<not> is_ws 96" "\<not> is_ws 123" "\<not> is_ws 125" "is_ws 10"
  by (simp_all add: is_ws_def)

lemma trim_around:
  assumes "J \<noteq> []" "\<not> is_ws (hd J)" "\<not> is_ws (last J)"
  shows "trim (pre @ J @ post) = dropWhile is_ws pre @ J @ rev (dropWhile is_ws (rev post))"
proof -
  from assms obtain x xs where J: "J = x # xs" "\<not> is_ws x" by (cases J) auto
  from assms obtain ys y where J': "J = ys @ [y]" "\<not> is_ws y"
    by (metis append_butlast_last_id)
  have 1: "dropWhile is_ws (pre @ J @ post) = dropWhile is_ws pre @ J @ post"
    unfolding J using J(2) by (simp add: dropWhile_append3)
  have 2: "dropWhile is_ws (rev post @ rev J @ rev (dropWhile is_ws pre))
         = dropWhile is_ws (rev post) @ rev J @ rev (dropWhile is_ws pre)"
    unfolding J' using J'(2) by (simp add: dropWhile_append3)
  show ?thesis by (simp add: trim_def 1 2)
qed

lemma trim_ws_around:
  assumes "J \<noteq> []" "\<not> is_ws (hd J)" "\<not> is_ws (last J)" "list_all is_ws a" "list_all is_ws b"
  shows "trim (a @ J @ b) = J"
proof -
  have 1: "dropWhile is_ws a = []" using assms(4) by (simp add: list_all_iff dropWhile_eq_Nil_conv)
  have 2: "dropWhile is_ws (rev b) = []"
    using assms(5) by (simp add: list_all_iff dropWhile_eq_Nil_conv)
  show ?thesis unfolding trim_around [OF assms(1-3)] 1 2 by simp
qed

subsection \<open>The matcher on the shapes of the two patterns\<close>

lemma rmatch_Lit_fail [simp]: "\<not> startsWith s l \<Longrightarrow> rmatch (Lit l # rs) s = None"
  by simp

lemma re_match_skip:
  "c \<notin> set pre \<Longrightarrow>
     re_match (Lit (c # l) # rs) (pre @ s) = re_match (Lit (c # l) # rs) s"
  by (induction pre) auto

lemma re_match_codeBlock_None:
  "\<not> str_includes s fence \<Longrightarrow> re_match codeBlock_re s = None"
  by (induction s) (auto simp: codeBlock_re_def fence_def)

lemma rmatch_StarGreedy_all:
  assumes "list_all (in_class C) w"
    and "s = [] \<or> \<not> in_class C (hd s)"
    and "rmatch rs s = Some (m, g)"
  shows "rmatch (StarGreedy C # rs) (w @ s) = Some (w @ m, g)"
  using assms(1)
proof (induction w)
  case Nil
  from assms(2,3) show ?case by (cases s) auto
next
  case (Cons x w)
  then show ?case by simp
qed

lemma rmatch_close:
  "rmatch [OptLit [10], Lit fence] s =
     (if startsWith s (10 # fence) then Some (10 # fence, [])
      else if startsWith s fence then Some (fence, [])
      else None)"
  by (cases s) (auto simp: fence_eq startsWith_def split: option.splits)

lemma rmatch_GroupLazy:
  assumes "rmatch rs t = Some (m, g0)"
  shows "(\<forall>u v. g = u @ v \<and> v \<noteq> [] \<longrightarrow> rmatch rs (v @ t) = None) \<Longrightarrow>
         rmatch (GroupLazy AnyChar # rs) (g @ t) = Some (g @ m, g)"
proof (induction g)
  case Nil
  from assms show ?case by (cases t) auto
next
  case (Cons x g)
  have 1: "rmatch rs ((x # g) @ t) = None"
    using Cons.prems by (metis append_Nil list.distinct(1))
  have 2: "\<forall>u v. g = u @ v \<and> v \<noteq> [] \<longrightarrow> rmatch rs (v @ t) = None"
    using Cons.prems by (metis append_Cons)
  from Cons.IH [OF 2] 1 show ?case by simp
qed

lemma no_fence_start:
  assumes "\<not> str_includes g fence" "g \<noteq> []" "last g \<noteq> 96"
  shows "\<not> startsWith (g @ t) fence"
proof
  assume s: "startsWith (g @ t) fence"
  from assms(2) obtain a g1 where g: "g = a # g1" by (cases g) auto
  show False
  proof (cases g1)
    case Nil
    with s g assms(3) show False by (simp add: fence_eq)
  next
    case (Cons b g2)
    show False
    proof (cases g2)
      case Nil
      with s g Cons assms(3) show False by (simp add: fence_eq)
    next
      case (Cons c g3)
      with s g \<open>g1 = b # g2\<close> have "startsWith g fence" by (simp add: fence_eq)
      with assms(1) g show False by simp
    qed
  qed
qed

lemma no_fence_suffix:
  assumes "\<not> str_includes (u @ v) fence" "v \<noteq> []" "last (u @ v) \<noteq> 96"
  shows "\<not> startsWith (v @ t) fence"
proof -
  have "\<not> str_includes v fence" using assms(1) includes_suffix by blast
  moreover have "last v \<noteq> 96" using assms(2,3) by simp
  ultimately show ?thesis using assms(2) by (intro no_fence_start)
qed

lemma lazy_until_fence:
  assumes T: "T \<noteq> []" "\<not> str_includes T fence" "last T \<noteq> 96"
  shows "\<exists>m g. rmatch [GroupLazy AnyChar, OptLit [10], Lit fence] (T @ fence @ post) = Some (m, g)
           \<and> (g = T \<or> g @ [10] = T)"
proof (cases "last T = 10")
  case True
  with T(1) obtain T' where T': "T = T' @ [10]" by (metis append_butlast_last_id)
  let ?t = "10 # fence @ post"
  have close: "rmatch [OptLit [10], Lit fence] ?t = Some (10 # fence, [])"
    by (simp add: rmatch_close)
  have none: "rmatch [OptLit [10], Lit fence] (v @ ?t) = None"
    if uv: "T' = u @ v" and vne: "v \<noteq> []" for u v
  proof -
    have Tuv: "T = u @ (v @ [10])" using uv T' by simp
    have a: "\<not> startsWith ((v @ [10]) @ fence @ post) fence"
      using no_fence_suffix [of u "v @ [10]"] T Tuv by simp
    obtain x v' where v: "v = x # v'" using vne by (cases v) auto
    have b: "\<not> startsWith ((v' @ [10]) @ fence @ post) fence"
      using no_fence_suffix [of "u @ [x]" "v' @ [10]"] T Tuv v by simp
    from a b show ?thesis by (auto simp: rmatch_close v)
  qed
  from rmatch_GroupLazy [OF close, of T'] none
  have "rmatch [GroupLazy AnyChar, OptLit [10], Lit fence] (T' @ ?t) = Some (T' @ 10 # fence, T')"
    by blast
  then show ?thesis using T' by auto
next
  case False
  let ?t = "fence @ post"
  have close: "rmatch [OptLit [10], Lit fence] ?t = Some (fence, [])"
    by (simp add: rmatch_close) (simp add: fence_eq)
  have none: "rmatch [OptLit [10], Lit fence] (v @ ?t) = None"
    if uv: "T = u @ v" and vne: "v \<noteq> []" for u v
  proof -
    have a: "\<not> startsWith (v @ fence @ post) fence"
      using no_fence_suffix [of u v] T uv vne by simp
    obtain x v' where v: "v = x # v'" using vne by (cases v) auto
    have b: "\<not> startsWith (v' @ fence @ post) fence" if "x = 10"
    proof -
      have "v' \<noteq> []" using False \<open>x = 10\<close> v uv by auto
      then show ?thesis
        using no_fence_suffix [of "u @ [x]" v'] T uv v by simp
    qed
    from a b show ?thesis by (auto simp: rmatch_close v)
  qed
  from rmatch_GroupLazy [OF close, of T] none
  have "rmatch [GroupLazy AnyChar, OptLit [10], Lit fence] (T @ ?t) = Some (T @ fence, T)"
    by blast
  then show ?thesis by auto
qed

lemma no_fence_append:
  assumes "\<not> str_includes J fence" "J \<noteq> []" "last J \<noteq> 96" "96 \<notin> set w"
  shows "\<not> str_includes (J @ w) fence"
  using assms(1-3)
proof (induction J)
  case Nil
  then show ?case by simp
next
  case (Cons x J)
  show ?case
  proof (cases "J = []")
    case True
    with Cons.prems assms(4) show ?thesis
      by (auto simp: fence_eq dest: includes_fence_backtick [unfolded fence_eq])
  next
    case False
    with Cons.prems have "\<not> str_includes (J @ w) fence" by (intro Cons.IH) auto
    moreover have "\<not> startsWith ((x # J) @ w) fence"
      using Cons.prems by (intro no_fence_start) auto
    ultimately show ?thesis by simp
  qed
qed

lemma str_json: "str ''json'' = [106, 115, 111, 110]"
  by (simp add: str_def)

lemma str_nl: "str ''\<newline>'' = [10]"
  by (simp add: str_def)

lemma str_lbrace: "str ''{'' = [123]"
  by (simp add: str_def)

lemma str_rbrace: "str ''}'' = [125]"
  by (simp add: str_def)

lemma ws_no_backtick: "list_all is_ws w \<Longrightarrow> 96 \<notin> set w"
  by (auto simp: list_all_iff)

lemma codeBlock_at_fence:
  assumes J: "J = 123 # body @ [125]"
    and nf: "\<not> str_includes J fence"
    and w1: "list_all is_ws w1" and w2: "list_all is_ws w2"
    and tag: "tag = [] \<or> tag = str ''json''"
  shows "\<exists>m g. rmatch codeBlock_re (fence @ tag @ w1 @ J @ w2 @ fence @ post) = Some (m, g)
           \<and> trim g = J"
proof -
  let ?T = "J @ w2"
  let ?R3 = "[GroupLazy AnyChar, OptLit [10], Lit fence]"
  have Jne: "J \<noteq> []" and Jhd: "hd J = 123" and Jlast: "last J = 125"
    by (simp_all add: J)
  have T1: "?T \<noteq> []" using Jne by simp
  have T2: "\<not> str_includes ?T fence"
    using nf Jne Jlast ws_no_backtick [OF w2] by (intro no_fence_append) auto
  have T3: "last ?T \<noteq> 96"
  proof (cases "w2 = []")
    case True
    then show ?thesis using Jlast by simp
  next
    case False
    then have "last w2 \<in> set w2" by simp
    with ws_no_backtick [OF w2] have "last w2 \<noteq> 96" by auto
    with False show ?thesis by simp
  qed
  from lazy_until_fence [OF T1 T2 T3, of post]
  obtain m0 g0 where lazy: "rmatch ?R3 (?T @ fence @ post) = Some (m0, g0)"
    and g0: "g0 = ?T \<or> g0 @ [10] = ?T" by blast
  have tr: "trim g0 = J"
  proof -
    from g0 have "\<exists>w. g0 = J @ w \<and> list_all is_ws w"
    proof
      assume "g0 = ?T" with w2 show ?thesis by blast
    next
      assume a: "g0 @ [10] = ?T"
      have "w2 \<noteq> []" using a Jlast by (metis last_snoc append_Nil2 numeral_eq_iff semiring_norm(89))
      then obtain w where w: "w2 = w @ [last w2]" by (metis append_butlast_last_id)
      with a have "g0 = J @ w" by (metis append_assoc butlast_snoc)
      moreover have "list_all is_ws w" using w w2 by (metis list_all_append)
      ultimately show ?thesis by blast
    qed
    then obtain w where "g0 = J @ w" "list_all is_ws w" by blast
    then show ?thesis
      using trim_ws_around [of J "[]" w] Jne Jhd Jlast by simp
  qed
  have s3: "rmatch (OptLit [10] # ?R3) (?T @ fence @ post) = Some (m0, g0)"
    using lazy by (simp add: J)
  have w1': "list_all (in_class Space) w1" using w1 by (simp add: list_all_iff)
  have hd: "?T @ fence @ post = [] \<or> \<not> in_class Space (hd (?T @ fence @ post))"
    by (simp add: J)
  have s2: "rmatch (StarGreedy Space # OptLit [10] # ?R3) (w1 @ ?T @ fence @ post)
             = Some (w1 @ m0, g0)"
    by (rule rmatch_StarGreedy_all [OF w1' hd s3])
  have s1: "\<exists>m. rmatch (OptLit (str ''json'') # StarGreedy Space # OptLit [10] # ?R3)
                  (tag @ w1 @ ?T @ fence @ post) = Some (m, g0)"
  proof (cases "tag = []")
    case True
    have "\<not> startsWith (w1 @ ?T @ fence @ post) (str ''json'')"
      using w1 by (cases w1) (auto simp: J str_json is_ws_def)
    with s2 True show ?thesis by simp
  next
    case False
    with tag have "tag = str ''json''" by simp
    with s2 show ?thesis by simp
  qed
  then obtain m1 where m1: "rmatch (OptLit (str ''json'') # StarGreedy Space # OptLit [10] # ?R3)
                  (tag @ w1 @ ?T @ fence @ post) = Some (m1, g0)" by blast
  have "rmatch codeBlock_re (fence @ tag @ w1 @ J @ w2 @ fence @ post) = Some (fence @ m1, g0)"
    using m1 by (simp add: codeBlock_re_def str_nl fence_def [symmetric])
  with tr show ?thesis by blast
qed

subsection \<open>The object pattern\<close>

lemma rmatch_greedy_none:
  "125 \<notin> set b \<Longrightarrow> rmatch [StarGreedy AnyChar, Lit [125]] b = None"
  by (induction b) auto

lemma rmatch_greedy_last:
  "125 \<notin> set b \<Longrightarrow>
     rmatch [StarGreedy AnyChar, Lit [125]] (u @ 125 # b) = Some (u @ [125], [])"
  by (induction u) (auto simp: rmatch_greedy_none)

lemma re_match_object:
  assumes "123 \<notin> set a" "125 \<notin> set b"
  shows "re_match object_re (a @ 123 # body @ 125 # b) = Some (123 # body @ [125], [])"
proof -
  have "re_match object_re (a @ 123 # body @ 125 # b) = re_match object_re (123 # body @ 125 # b)"
    unfolding object_re_def str_lbrace using assms(1) by (rule re_match_skip)
  also have "\<dots> = Some (123 # body @ [125], [])"
    using rmatch_greedy_last [OF assms(2), of body]
    by (simp add: object_re_def str_lbrace str_rbrace)
  finally show ?thesis .
qed

lemma extract_plain:
  assumes J: "J = 123 # body @ [125]"
    and nf: "\<not> str_includes J fence"
    and a: "list_all is_ws a" and b: "list_all is_ws b"
  shows "extract_jsonText (a @ J @ b) = J"
proof -
  have t: "trim (a @ J @ b) = J"
    using trim_ws_around [of J a b] a b by (simp add: J)
  have m: "re_match codeBlock_re J = None"
    using nf by (rule re_match_codeBlock_None)
  show ?thesis
    unfolding extract_jsonText_def t Let_def m by (simp add: J str_lbrace)
qed

lemma extract_fenced:
  assumes J: "J = 123 # body @ [125]"
    and nf: "\<not> str_includes J fence"
    and pre: "96 \<notin> set pre"
    and tag: "tag = [] \<or> tag = str ''json''"
    and w1: "list_all is_ws w1" and w2: "list_all is_ws w2"
  shows "extract_jsonText (pre @ fence @ tag @ w1 @ J @ w2 @ fence @ post) = J"
proof -
  let ?F = "fence @ tag @ w1 @ J @ w2 @ fence"
  let ?pre = "dropWhile is_ws pre"
  let ?post = "rev (dropWhile is_ws (rev post))"
  have F: "?F \<noteq> []" "\<not> is_ws (hd ?F)" "\<not> is_ws (last ?F)"
    by (simp_all add: fence_eq)
  have t: "trim (pre @ ?F @ post) = ?pre @ ?F @ ?post"
    by (rule trim_around [OF F])
  have pre': "96 \<notin> set ?pre"
    using pre set_dropWhileD by fastforce
  from codeBlock_at_fence [OF J nf w1 w2 tag, of ?post]
  obtain m g where mg: "rmatch codeBlock_re (?F @ ?post) = Some (m, g)" and g: "trim g = J"
    by auto
  have "re_match codeBlock_re (?pre @ ?F @ ?post) = re_match codeBlock_re (?F @ ?post)"
    unfolding codeBlock_re_def fence_def [symmetric] fence_eq
    using pre' by (rule re_match_skip)
  also have "\<dots> = Some (m, g)"
    using mg by (simp add: fence_eq)
  finally have m: "re_match codeBlock_re (?pre @ ?F @ ?post) = Some (m, g)" .
  have "extract_jsonText (pre @ ?F @ post) = J"
    unfolding extract_jsonText_def t Let_def m by (simp add: g) (simp add: J str_lbrace)
  then show ?thesis by simp
qed

lemma extract_prose:
  assumes J: "J = 123 # body @ [125]"
    and nf: "\<not> str_includes (pre @ J @ post) fence"
    and pre: "\<not> list_all is_ws pre" "123 \<notin> set pre"
    and post: "125 \<notin> set post"
  shows "extract_jsonText (pre @ J @ post) = J"
proof -
  let ?pre = "dropWhile is_ws pre"
  let ?post = "rev (dropWhile is_ws (rev post))"
  have t: "trim (pre @ J @ post) = ?pre @ J @ ?post"
    by (rule trim_around) (simp_all add: J)
  have pre_split: "pre = takeWhile is_ws pre @ ?pre" by simp
  have post_split: "post = ?post @ rev (takeWhile is_ws (rev post))"
    by (metis rev_append rev_rev_ident takeWhile_dropWhile_id)
  have "pre @ J @ post = takeWhile is_ws pre @ (?pre @ J @ ?post) @ rev (takeWhile is_ws (rev post))"
    using pre_split post_split by (metis append.assoc)
  with nf have nf': "\<not> str_includes (?pre @ J @ ?post) fence"
    using includes_middle by metis
  have m1: "re_match codeBlock_re (?pre @ J @ ?post) = None"
    using nf' by (rule re_match_codeBlock_None)
  have ne: "?pre \<noteq> []" using pre(1) by (simp add: list_all_iff dropWhile_eq_Nil_conv)
  have pre': "123 \<notin> set ?pre" using pre(2) set_dropWhileD by fastforce
  have post': "125 \<notin> set ?post" using post set_dropWhileD by fastforce
  have st: "\<not> startsWith (?pre @ J @ ?post) (str ''{'')"
    using ne pre' by (cases ?pre) (auto simp: str_lbrace)
  have m2: "re_match object_re (?pre @ J @ ?post) = Some (J, [])"
    using re_match_object [OF pre' post', of body] by (simp add: J)
  show ?thesis
    unfolding extract_jsonText_def t Let_def m1 using st by (simp add: m2)
qed

section \<open>The claims about the parser and the stream\<close>

subsection \<open>Claim C5\<close>



subsection \<open>Claim C2\<close>

text \<open>
  As stated for every response text that parses as JSON, the claim fails: the extraction
  runs first, and a response that is itself JSON but holds two fences inside its strings
  is cut down to what stands between them. Here the response parses as JSON, its
  \<^verbatim>\<open>output\<close> array is \<^verbatim>\<open>[1]\<close>, whose element fails the validation, and the result is not
  \<^verbatim>\<open>null\<close> but a tool call read from the nested object \<^verbatim>\<open>b\<close>.
\<close>

theorem fences_inside_strings:
  \<open>JSON_parse (str ''{"a":"```","output":[1],"b":{"output":[{"type":"function_call","callId":"y","name":"g","arguments":"{}"}]},"c":"```"}'')
     = Inr (JObj [(str ''a'', JStr (str ''```'')),
                  (str ''output'', JArr [JNum 1 0]),
                  (str ''b'', JObj [(str ''output'',
                     JArr [JObj [(str ''type'', JStr (str ''function_call'')), (str ''callId'', JStr (str ''y'')),
                                 (str ''name'', JStr (str ''g'')), (str ''arguments'', JStr (str ''{}''))]])]),
                  (str ''c'', JStr (str ''```''))])
   \<and> hasRequiredFields (JNum 1 0) = Inr False
   \<and> parseToolCallResponse (str ''{"a":"```","output":[1],"b":{"output":[{"type":"function_call","callId":"y","name":"g","arguments":"{}"}]},"c":"```"}'')
     = Inr (Some [JObj [(str ''type'', JStr (str ''function_call'')), (str ''callId'', JStr (str ''y'')),
                        (str ''name'', JStr (str ''g'')), (str ''arguments'', JStr (str ''{}''))]])\<close>
  by (simp add: js_eval)

text \<open>
  C2, amended. For every response text such that the text handed to \<^verbatim>\<open>JSON.parse\<close> (the
  response after the extraction of \<open>extract_jsonText\<close>) parses as JSON with an \<^verbatim>\<open>output\<close>
  array in which at least one element fails the shape validation,
  \<^verbatim>\<open>parseToolCallResponse\<close> returns \<^verbatim>\<open>null\<close> for the whole response: validation is all or
  nothing. This covers every response that is the JSON object text alone, free of triple
  backquotes and with at most white space around it (the second part).
\<close>

theorem parseToolCallResponse_all_or_nothing:
  assumes out: "get_prop parsed (str ''output'') = Inr (JArr items)"
    and item: "item \<in> set items"
    and bad: "hasRequiredFields item \<noteq> Inr True"
  shows "(JSON_parse (extract_jsonText response) = Inr parsed \<longrightarrow>
            parseToolCallResponse response = Inr None)
       \<and> (J = str ''{'' @ body @ str ''}'' \<and> \<not> str_includes J (str ''```'')
            \<and> JSON_parse J = Inr parsed \<and> list_all is_ws a \<and> list_all is_ws b \<longrightarrow>
            parseToolCallResponse (a @ J @ b) = Inr None)"
proof -
  from item bad have inv: "\<not> list_all (\<lambda>item. hasRequiredFields item = Inr True) items"
    by (auto simp: list_all_iff)
  have 1: "parseToolCallResponse t = Inr None" if "JSON_parse (extract_jsonText t) = Inr parsed" for t
    using try_block_invalid [OF that out inv] by (auto simp: parseToolCallResponse_def)
  have 2: "extract_jsonText (a @ J @ b) = J"
    if "J = str ''{'' @ body @ str ''}''" "\<not> str_includes J (str ''```'')"
       "list_all is_ws a" "list_all is_ws b"
    using that extract_plain [of J body a b] by (simp add: str_lbrace str_rbrace fence_def)
  show ?thesis using 1 2 by metis
qed

text \<open>
  An array of two calls, the first valid, the second with a nested object as
  \<^verbatim>\<open>arguments\<close>: nothing is accepted.
\<close>

theorem parseToolCallResponse_all_or_nothing_witness:
  \<open>parseToolCallResponse (str ''{"output":[{"type":"function_call","callId":"a","name":"f","arguments":"{}"},{"type":"function_call","callId":"b","name":"g","arguments":{"x":1}}]}'') = Inr None
   \<and> parseToolCallResponse (str ''\<newline>{"output":[{"type":"function_call","callId":"a","name":"f","arguments":"{}"},{"type":"function_call","callId":"b","name":"g","arguments":{"x":1}}]}  '') = Inr None\<close>
proof -
  let ?text = \<open>str ''{"output":[{"type":"function_call","callId":"a","name":"f","arguments":"{}"},{"type":"function_call","callId":"b","name":"g","arguments":{"x":1}}]}''\<close>
  let ?body = \<open>str ''"output":[{"type":"function_call","callId":"a","name":"f","arguments":"{}"},{"type":"function_call","callId":"b","name":"g","arguments":{"x":1}}]''\<close>
  let ?good = \<open>JObj [(str ''type'', JStr (str ''function_call'')), (str ''callId'', JStr (str ''a'')),
                     (str ''name'', JStr (str ''f'')), (str ''arguments'', JStr (str ''{}''))]\<close>
  let ?bad = \<open>JObj [(str ''type'', JStr (str ''function_call'')), (str ''callId'', JStr (str ''b'')),
                    (str ''name'', JStr (str ''g'')), (str ''arguments'', JObj [(str ''x'', JNum 1 0)])]\<close>
  have 0: "JSON_parse ?text = Inr (JObj [(str ''output'', JArr [?good, ?bad])])"
    by (simp add: js_eval)
  have 1: "JSON_parse (extract_jsonText ?text) = Inr (JObj [(str ''output'', JArr [?good, ?bad])])"
    by (simp add: js_eval)
  have 2: "get_prop (JObj [(str ''output'', JArr [?good, ?bad])]) (str ''output'') = Inr (JArr [?good, ?bad])"
    by simp
  have 3: "?bad \<in> set [?good, ?bad]" by simp
  have 4: "hasRequiredFields ?bad \<noteq> Inr True" by (simp add: hasRequiredFields_def str_def)
  have 5: \<open>?text = str ''{'' @ ?body @ str ''}'' \<and> \<not> str_includes ?text (str ''```'')
      \<and> list_all is_ws (str ''\<newline>'') \<and> list_all is_ws (str ''  '')\<close>
    by (simp add: str_def is_ws_def)
  have 6: \<open>str ''\<newline>'' @ ?text @ str ''  '' = str ''\<newline>{"output":[{"type":"function_call","callId":"a","name":"f","arguments":"{}"},{"type":"function_call","callId":"b","name":"g","arguments":{"x":1}}]}  ''\<close>
    by (simp add: str_def)
  note t = parseToolCallResponse_all_or_nothing [OF 2 3 4]
  from t [where response = ?text] 1 have a: "parseToolCallResponse ?text = Inr None" by blast
  from t [where J = ?text and body = ?body and a = \<open>str ''\<newline>''\<close> and b = \<open>str ''  ''\<close>] 0 5
  have "parseToolCallResponse (str ''\<newline>'' @ ?text @ str ''  '') = Inr None" by blast
  with a show ?thesis unfolding 6 by blast
qed

subsection \<open>Claim C6\<close>

text \<open>
  As stated the claim fails: an envelope whose \<^verbatim>\<open>output\<close> array is empty is a successful
  parse, and its result is the empty array (\<^verbatim>\<open>every\<close> holds of no elements, and an empty
  array is truthy).
\<close>

theorem parseToolCallResponse_empty_success:
  \<open>parseToolCallResponse (str '' {"output": []} '') = Inr (Some [])\<close>
  by (simp add: js_eval)

text \<open>
  C6, amended. A successful result of \<^verbatim>\<open>parseToolCallResponse\<close> is the whole \<^verbatim>\<open>output\<close>
  array of the parsed text, every element of which passes the shape validation: never a
  part of the array. It is an array that may be empty.
\<close>

theorem parseToolCallResponse_success_shape:
  assumes "parseToolCallResponse text = Inr (Some items)"
  shows "\<exists>parsed. JSON_parse (extract_jsonText text) = Inr parsed
           \<and> get_prop parsed (str ''output'') = Inr (JArr items)
           \<and> list_all (\<lambda>item. hasRequiredFields item = Inr True) items"
  using assms by (simp add: parseToolCallResponse_Some_iff try_block_Some_iff)

text \<open>One call, returned as it was parsed.\<close>

theorem parseToolCallResponse_success_shape_witness:
  \<open>parseToolCallResponse (str ''{"output":[{"type":"function_call","callId":"call_1","name":"get_weather","arguments":"{}"}]}'')
     = Inr (Some [JObj [(str ''type'', JStr (str ''function_call'')), (str ''callId'', JStr (str ''call_1'')),
                        (str ''name'', JStr (str ''get_weather'')), (str ''arguments'', JStr (str ''{}''))]])
   \<and> list_all (\<lambda>item. hasRequiredFields item = Inr True)
        [JObj [(str ''type'', JStr (str ''function_call'')), (str ''callId'', JStr (str ''call_1'')),
               (str ''name'', JStr (str ''get_weather'')), (str ''arguments'', JStr (str ''{}''))]]\<close>
proof -
  have 1: \<open>parseToolCallResponse (str ''{"output":[{"type":"function_call","callId":"call_1","name":"get_weather","arguments":"{}"}]}'')
     = Inr (Some [JObj [(str ''type'', JStr (str ''function_call'')), (str ''callId'', JStr (str ''call_1'')),
                        (str ''name'', JStr (str ''get_weather'')), (str ''arguments'', JStr (str ''{}''))]])\<close>
    by (simp add: js_eval)
  from parseToolCallResponse_success_shape [OF 1] show ?thesis using 1 by blast
qed

subsection \<open>Claim C10\<close>

text \<open>
  C10. For the response text \<^verbatim>\<open>{"output":[]}\<close>, \<^verbatim>\<open>parseToolCallResponse\<close> returns the empty
  array as a successful parse, and the transformed stream of a segment with that text,
  in one delta or in two, holds no part at all: neither text parts nor tool parts.
\<close>

theorem empty_output_is_empty_response:
  \<open>parseToolCallResponse (str ''{"output":[]}'') = Inr (Some [])
   \<and> doStream [TextStart i, TextDelta i (str ''{"output":[]}''), TextEnd i] = Inr []
   \<and> doStream [TextStart i, TextDelta i (str ''{"out''), TextDelta i (str ''put":[]}''), TextEnd i] = Inr []\<close>
proof -
  have 1: \<open>parseToolCallResponse (str ''{"output":[]}'') = Inr (Some [])\<close>
    by (simp add: js_eval)
  have 2: \<open>str ''{"out'' @ str ''put":[]}'' = str ''{"output":[]}''\<close>
    by (simp add: str_def)
  show ?thesis
    by (simp add: doStream_def 1) (simp add: 2 1)
qed

subsection \<open>Claim C3\<close>

text \<open>
  C3. For every text segment whose buffered text does not parse as a tool call, the
  identifier of the segment being a non-empty string, the transformed stream holds, for
  the segment,
  \<^verbatim>\<open>text-start\<close>, one \<^verbatim>\<open>text-delta\<close> whose delta is the concatenation of all deltas of the
  segment, and \<^verbatim>\<open>text-end\<close>, all three with the identifier of the segment's \<^verbatim>\<open>text-start\<close>;
  the parts of other types that arrived inside the segment come before them, unchanged.
\<close>

theorem text_segment_coalesced:
  fixes body :: "'x part list"
  assumes "list_all (\<lambda>p. \<not> opens_or_closes p) body"
    and "parseToolCallResponse (concat (map delta_of body)) = Inr None"
    and "i \<noteq> []"
  shows "pipeThrough st (TextStart i # body @ [TextEnd j]) =
     Inr (st\<lparr>textId := Some i, bufferedText := concat (map delta_of body)\<rparr>,
          filter (\<lambda>p. \<not> is_text p) body
            @ [TextStart i, TextDelta i (concat (map delta_of body)), TextEnd i])"
  unfolding pipeThrough_segment [OF assms(1)] using assms(2,3) by simp

text \<open>The example of the specification: the deltas \<^verbatim>\<open>"Hel"\<close> and \<^verbatim>\<open>"lo"\<close>.\<close>

theorem text_segment_coalesced_witness:
  \<open>doStream [TextStart (str ''text-0''), TextDelta (str ''text-0'') (str ''Hel''),
              TextDelta (str ''text-0'') (str ''lo''), TextEnd (str ''text-0'') :: unit part]
     = Inr [TextStart (str ''text-0''), TextDelta (str ''text-0'') (str ''Hello''),
            TextEnd (str ''text-0'')]\<close>
proof -
  let ?i = \<open>str ''text-0''\<close>
  let ?body = \<open>[TextDelta ?i (str ''Hel''), TextDelta ?i (str ''lo'')] :: unit part list\<close>
  have b: "list_all (\<lambda>p. \<not> opens_or_closes p) ?body" by simp
  have c: \<open>concat (map delta_of ?body) = str ''Hello''\<close> by (simp add: str_def)
  have p: "parseToolCallResponse (concat (map delta_of ?body)) = Inr None"
    unfolding c by (simp add: js_eval)
  have i: "?i \<noteq> []" by (simp add: str_def)
  from text_segment_coalesced [OF b p i, of "\<lparr>bufferedText = [], textId = None\<rparr>" ?i]
  show ?thesis unfolding c by (simp add: doStream_def del: pipeThrough.simps)
qed

text \<open>
  The identifier has to be non-empty: \<^verbatim>\<open>if (textId)\<close>, the test that a \<^verbatim>\<open>text-start\<close> was
  seen, is false for the empty string too, and a segment with that identifier is not
  forwarded. The text parts come from \<^verbatim>\<open>super.doStream\<close> of the base model, which supplies the
  identifiers.
\<close>

lemma empty_segment_id_drops_text:
  \<open>parseToolCallResponse (str ''Hello'') = Inr None
   \<and> doStream [TextStart [], TextDelta [] (str ''Hel''), TextDelta [] (str ''lo''), TextEnd []] = Inr []\<close>
proof -
  have 1: \<open>parseToolCallResponse (str ''Hello'') = Inr None\<close>
    by (simp add: js_eval)
  have 2: \<open>str ''Hel'' @ str ''lo'' = str ''Hello''\<close>
    by (simp add: str_def)
  show ?thesis by (simp add: doStream_def 1) (simp add: 2 1)
qed

subsection \<open>Claim C4\<close>

text \<open>
  C4. For every text segment whose buffered text parses as the tool calls \<open>calls\<close>, the
  transformed stream holds, for each call in the order of the array, the four parts
  \<^verbatim>\<open>tool-input-start\<close>, \<^verbatim>\<open>tool-input-delta\<close> with the whole \<^verbatim>\<open>arguments\<close> string,
  \<^verbatim>\<open>tool-input-end\<close> and \<^verbatim>\<open>tool-call\<close>, each with the call's own \<^verbatim>\<open>callId\<close>, and no text part
  for the segment; each \<^verbatim>\<open>arguments\<close> is a string; and every part that is not
  \<^verbatim>\<open>text-start\<close>, \<^verbatim>\<open>text-delta\<close> or \<^verbatim>\<open>text-end\<close> is enqueued unchanged by the very call of
  \<open>transform\<close> that receives it, in any state.
\<close>

theorem tool_calls_replace_text:
  fixes body :: "'x part list"
  assumes "list_all (\<lambda>p. \<not> opens_or_closes p) body"
    and "parseToolCallResponse (concat (map delta_of body)) = Inr (Some calls)"
  shows "pipeThrough st (TextStart i # body @ [TextEnd j]) =
           Inr (st\<lparr>textId := Some i, bufferedText := concat (map delta_of body)\<rparr>,
                filter (\<lambda>p. \<not> is_text p) body @ concat (map tool_parts calls))
       \<and> list_all (\<lambda>p. \<not> is_text p)
           (filter (\<lambda>p. \<not> is_text p) body @ concat (map tool_parts calls :: 'x part list list))
       \<and> list_all (\<lambda>call. is_string (field call (str ''arguments''))) calls
       \<and> (\<forall>st' p. \<not> is_text (p :: 'x part) \<longrightarrow> transform st' p = Inr (st', [p]))"
proof -
  have v: "list_all (\<lambda>item. hasRequiredFields item = Inr True) calls"
    using assms(2) by (rule parse_Some_valid)
  have e: "enqueue_calls calls = (Inr (concat (map tool_parts calls)) :: exn + 'x part list)"
    using v by (rule enqueue_calls_valid)
  have 1: "pipeThrough st (TextStart i # body @ [TextEnd j]) =
           Inr (st\<lparr>textId := Some i, bufferedText := concat (map delta_of body)\<rparr>,
                filter (\<lambda>p. \<not> is_text p) body @ concat (map tool_parts calls))"
    unfolding pipeThrough_segment [OF assms(1)] using assms(2) e by simp
  have 2: "list_all (\<lambda>p. \<not> is_text p)
           (filter (\<lambda>p. \<not> is_text p) body @ concat (map tool_parts calls :: 'x part list list))"
    using concat_tool_parts_not_text [of calls] by (auto simp: list_all_iff)
  have 3: "list_all (\<lambda>call. is_string (field call (str ''arguments''))) calls"
    using v by (auto simp: list_all_iff dest: valid_fields(4))
  show ?thesis using 1 2 3 transform_passthrough by blast
qed

text \<open>Two calls, their text in two deltas with another part between them.\<close>

theorem tool_calls_replace_text_witness:
  \<open>doStream [TextStart (str ''text-0''),
              TextDelta (str ''text-0'') (str ''{"output":[{"type":"function_call","callId":"call_1","name":"f","arguments":"{}"},''),
              Other (7 :: nat),
              TextDelta (str ''text-0'') (str ''{"type":"function_call","callId":"call_2","name":"g","arguments":"[1]"}]}''),
              TextEnd (str ''text-0'')]
     = Inr [Other 7,
            ToolInputStart (JStr (str ''call_1'')) (JStr (str ''f'')),
            ToolInputDelta (JStr (str ''call_1'')) (JStr (str ''{}'')),
            ToolInputEnd (JStr (str ''call_1'')),
            ToolCall (JStr (str ''call_1'')) (JStr (str ''f'')) (JStr (str ''{}'')),
            ToolInputStart (JStr (str ''call_2'')) (JStr (str ''g'')),
            ToolInputDelta (JStr (str ''call_2'')) (JStr (str ''[1]'')),
            ToolInputEnd (JStr (str ''call_2'')),
            ToolCall (JStr (str ''call_2'')) (JStr (str ''g'')) (JStr (str ''[1]''))]\<close>
proof -
  let ?i = \<open>str ''text-0''\<close>
  let ?body = \<open>[TextDelta ?i (str ''{"output":[{"type":"function_call","callId":"call_1","name":"f","arguments":"{}"},''),
                 Other (7 :: nat),
                 TextDelta ?i (str ''{"type":"function_call","callId":"call_2","name":"g","arguments":"[1]"}]}'')]\<close>
  let ?c1 = \<open>JObj [(str ''type'', JStr (str ''function_call'')), (str ''callId'', JStr (str ''call_1'')),
                   (str ''name'', JStr (str ''f'')), (str ''arguments'', JStr (str ''{}''))]\<close>
  let ?c2 = \<open>JObj [(str ''type'', JStr (str ''function_call'')), (str ''callId'', JStr (str ''call_2'')),
                   (str ''name'', JStr (str ''g'')), (str ''arguments'', JStr (str ''[1]''))]\<close>
  have b: "list_all (\<lambda>p. \<not> opens_or_closes p) ?body" by simp
  have c: \<open>concat (map delta_of ?body) = str ''{"output":[{"type":"function_call","callId":"call_1","name":"f","arguments":"{}"},{"type":"function_call","callId":"call_2","name":"g","arguments":"[1]"}]}''\<close>
    by (simp add: str_def)
  have p: "parseToolCallResponse (concat (map delta_of ?body)) = Inr (Some [?c1, ?c2])"
    unfolding c by (simp add: js_eval)
  have tp: \<open>concat (map tool_parts [?c1, ?c2]) =
      [ToolInputStart (JStr (str ''call_1'')) (JStr (str ''f'')),
       ToolInputDelta (JStr (str ''call_1'')) (JStr (str ''{}'')),
       ToolInputEnd (JStr (str ''call_1'')),
       ToolCall (JStr (str ''call_1'')) (JStr (str ''f'')) (JStr (str ''{}'')),
       ToolInputStart (JStr (str ''call_2'')) (JStr (str ''g'')),
       ToolInputDelta (JStr (str ''call_2'')) (JStr (str ''[1]'')),
       ToolInputEnd (JStr (str ''call_2'')),
       ToolCall (JStr (str ''call_2'')) (JStr (str ''g'')) (JStr (str ''[1]'')) :: nat part]\<close>
    by (simp add: tool_parts_def field_def str_def)
  note t = tool_calls_replace_text [OF b p, of "\<lparr>bufferedText = [], textId = None\<rparr>" ?i ?i,
      THEN conjunct1, unfolded tp]
  then show ?thesis
    unfolding doStream_def by (simp del: pipeThrough.simps)
qed

subsection \<open>Claim C1\<close>

text \<open>
  C1. The claim asks for the exact \<^verbatim>\<open>output\<close> array of a valid envelope also when prose
  follows the envelope, and the doc comment of \<^verbatim>\<open>parseToolCallResponse\<close> lists
  \<^verbatim>\<open>JSON with text before/after\<close> among the formats it handles. The code misses the case of
  prose after the envelope only: such a response starts with \<^verbatim>\<open>{\<close>, so the guard
  \<^verbatim>\<open>!jsonText.startsWith('{')\<close> skips the search for the span from the first \<^verbatim>\<open>{\<close> to the last
  \<^verbatim>\<open>}\<close>, \<^verbatim>\<open>JSON.parse\<close> fails on the whole response, and the result is \<^verbatim>\<open>null\<close>. The envelope
  of the example alone gives its array.
\<close>

theorem trailing_prose_not_parsed:
  \<open>try_block (str ''{"output":[{"type":"function_call","callId":"call_1","name":"get_weather","arguments":"{}"}]}'')
     = Inr (Some [JObj [(str ''type'', JStr (str ''function_call'')), (str ''callId'', JStr (str ''call_1'')),
                        (str ''name'', JStr (str ''get_weather'')), (str ''arguments'', JStr (str ''{}''))]])
   \<and> parseToolCallResponse (str ''{"output":[{"type":"function_call","callId":"call_1","name":"get_weather","arguments":"{}"}]} Done.'')
     = Inr None\<close>
  by (simp add: js_eval)

text \<open>
  Shapes of a response on which the parser does return the array. Let \<open>J\<close> be a tool-call
  envelope: a text from \<^verbatim>\<open>{\<close> to \<^verbatim>\<open>}\<close> without three backquotes in a row that parses as JSON
  with an \<^verbatim>\<open>output\<close> array all of whose elements pass the shape validation. Then
  \<^verbatim>\<open>parseToolCallResponse\<close> returns exactly that array
  \<^item> for \<open>J\<close> with at most white space around it;
  \<^item> for \<open>J\<close> in the first fenced block of the response (three backquotes, optionally
    \<^verbatim>\<open>json\<close>, \<open>J\<close> with white space around it, three backquotes), after prose without a
    backquote and before anything;
  \<^item> for \<open>J\<close> after prose that is not blank and holds no \<^verbatim>\<open>{\<close>, and before prose without
    \<^verbatim>\<open>}\<close>, the response being free of three backquotes in a row.
\<close>

lemma parseToolCallResponse_envelope:
  assumes J: "J = str ''{'' @ body @ str ''}''"
    and nf: "\<not> str_includes J (str ''```'')"
    and parsed: "JSON_parse J = Inr parsed"
    and out: "get_prop parsed (str ''output'') = Inr (JArr items)"
    and valid: "list_all (\<lambda>item. hasRequiredFields item = Inr True) items"
  shows "(list_all is_ws a \<and> list_all is_ws b \<longrightarrow>
            parseToolCallResponse (a @ J @ b) = Inr (Some items))
       \<and> (96 \<notin> set pre \<and> (tag = [] \<or> tag = str ''json'')
            \<and> list_all is_ws w1 \<and> list_all is_ws w2 \<longrightarrow>
            parseToolCallResponse
              (pre @ str ''```'' @ tag @ w1 @ J @ w2 @ str ''```'' @ post) = Inr (Some items))
       \<and> (\<not> list_all is_ws pre \<and> 123 \<notin> set pre \<and> 125 \<notin> set post
            \<and> \<not> str_includes (pre @ J @ post) (str ''```'') \<longrightarrow>
            parseToolCallResponse (pre @ J @ post) = Inr (Some items))"
proof -
  have J': "J = 123 # body @ [125]" using J by (simp add: str_lbrace str_rbrace)
  have tb: "try_block J = Inr (Some items)"
    using parsed out valid by (auto simp: try_block_Some_iff)
  have p: "parseToolCallResponse t = Inr (Some items)" if "extract_jsonText t = J" for t
    using that tb by (simp add: parseToolCallResponse_def)
  show ?thesis
    using extract_plain [OF J'] extract_fenced [OF J'] extract_prose [OF J'] nf p
    unfolding fence_def [symmetric]
    by (intro conjI impI) auto
qed

text \<open>The envelope of one call, in the three shapes.\<close>

lemma parseToolCallResponse_envelope_example:
  \<open>parseToolCallResponse (str ''  {"output":[{"type":"function_call","callId":"call_1","name":"get_weather","arguments":"{}"}]}\<newline>'')
     = Inr (Some [JObj [(str ''type'', JStr (str ''function_call'')), (str ''callId'', JStr (str ''call_1'')),
                        (str ''name'', JStr (str ''get_weather'')), (str ''arguments'', JStr (str ''{}''))]])
   \<and> parseToolCallResponse (str ''Here you go:\<newline>```json\<newline>{"output":[{"type":"function_call","callId":"call_1","name":"get_weather","arguments":"{}"}]}\<newline>```\<newline>Done.'')
     = Inr (Some [JObj [(str ''type'', JStr (str ''function_call'')), (str ''callId'', JStr (str ''call_1'')),
                        (str ''name'', JStr (str ''get_weather'')), (str ''arguments'', JStr (str ''{}''))]])
   \<and> parseToolCallResponse (str ''Sure: {"output":[{"type":"function_call","callId":"call_1","name":"get_weather","arguments":"{}"}]} Done.'')
     = Inr (Some [JObj [(str ''type'', JStr (str ''function_call'')), (str ''callId'', JStr (str ''call_1'')),
                        (str ''name'', JStr (str ''get_weather'')), (str ''arguments'', JStr (str ''{}''))]])\<close>
proof -
  let ?J = \<open>str ''{"output":[{"type":"function_call","callId":"call_1","name":"get_weather","arguments":"{}"}]}''\<close>
  let ?body = \<open>str ''"output":[{"type":"function_call","callId":"call_1","name":"get_weather","arguments":"{}"}]''\<close>
  let ?item = \<open>JObj [(str ''type'', JStr (str ''function_call'')), (str ''callId'', JStr (str ''call_1'')),
                     (str ''name'', JStr (str ''get_weather'')), (str ''arguments'', JStr (str ''{}''))]\<close>
  have J: \<open>?J = str ''{'' @ ?body @ str ''}''\<close> by (simp add: str_def)
  have nf: \<open>\<not> str_includes ?J (str ''```'')\<close> by (simp add: str_def)
  have parsed: \<open>JSON_parse ?J = Inr (JObj [(str ''output'', JArr [?item])])\<close>
    by (simp add: js_eval)
  have out: \<open>get_prop (JObj [(str ''output'', JArr [?item])]) (str ''output'') = Inr (JArr [?item])\<close>
    by simp
  have valid: \<open>list_all (\<lambda>item. hasRequiredFields item = Inr True) [?item]\<close>
    by (simp add: hasRequiredFields_def str_def)
  note env = parseToolCallResponse_envelope [OF J nf parsed out valid]
  have 1: \<open>parseToolCallResponse (str ''  '' @ ?J @ str ''\<newline>'') = Inr (Some [?item])\<close>
    using env [where a = \<open>str ''  ''\<close> and b = \<open>str ''\<newline>''\<close>]
    by (simp add: str_def is_ws_def)
  have 2: \<open>parseToolCallResponse (str ''Here you go:\<newline>'' @ str ''```'' @ str ''json'' @ str ''\<newline>''
              @ ?J @ str ''\<newline>'' @ str ''```'' @ str ''\<newline>Done.'') = Inr (Some [?item])\<close>
  proof -
    have h: \<open>96 \<notin> set (str ''Here you go:\<newline>'') \<and> (str ''json'' = [] \<or> str ''json'' = str ''json'')
        \<and> list_all is_ws (str ''\<newline>'') \<and> list_all is_ws (str ''\<newline>'')\<close>
      by (simp add: str_def is_ws_def)
    from env [where pre = \<open>str ''Here you go:\<newline>''\<close> and tag = \<open>str ''json''\<close>
        and ?w1.0 = \<open>str ''\<newline>''\<close> and ?w2.0 = \<open>str ''\<newline>''\<close> and post = \<open>str ''\<newline>Done.''\<close>] h
    show ?thesis by blast
  qed
  have 3: \<open>parseToolCallResponse (str ''Sure: '' @ ?J @ str '' Done.'') = Inr (Some [?item])\<close>
  proof -
    have h: \<open>\<not> list_all is_ws (str ''Sure: '') \<and> 123 \<notin> set (str ''Sure: '')
        \<and> 125 \<notin> set (str '' Done.'')
        \<and> \<not> str_includes (str ''Sure: '' @ ?J @ str '' Done.'') (str ''```'')\<close>
      by (simp add: str_def is_ws_def)
    from env [where pre = \<open>str ''Sure: ''\<close> and post = \<open>str '' Done.''\<close>] h
    show ?thesis by blast
  qed
  have e1: \<open>str ''  '' @ ?J @ str ''\<newline>'' = str ''  {"output":[{"type":"function_call","callId":"call_1","name":"get_weather","arguments":"{}"}]}\<newline>''\<close>
    by (simp add: str_def)
  have e2: \<open>str ''Here you go:\<newline>'' @ str ''```'' @ str ''json'' @ str ''\<newline>''
              @ ?J @ str ''\<newline>'' @ str ''```'' @ str ''\<newline>Done.''
      = str ''Here you go:\<newline>```json\<newline>{"output":[{"type":"function_call","callId":"call_1","name":"get_weather","arguments":"{}"}]}\<newline>```\<newline>Done.''\<close>
    by (simp add: str_def)
  have e3: \<open>str ''Sure: '' @ ?J @ str '' Done.'' = str ''Sure: {"output":[{"type":"function_call","callId":"call_1","name":"get_weather","arguments":"{}"}]} Done.''\<close>
    by (simp add: str_def)
  from 1 2 3 show ?thesis unfolding e1 e2 e3 by blast
qed

section \<open>ModelInstanceCache: the WebLLM model registry (chrome-ai-file-summarizer.ts)\<close>

text \<open>
  The module keeps two maps keyed by the model name: \<^verbatim>\<open>webLLMModels\<close> holds the handle built
  for a name, \<^verbatim>\<open>webLLMModelInitialization\<close> the promise of the initialization that is in
  flight for it. A handle is identified by a number, the position of its construction among
  all calls of \<^verbatim>\<open>webLLM(...)\<close>, and a promise by the position of its creation among all
  initializations started; two handles are the same object exactly when the numbers agree.

  Three lists are not variables of the source; they give the objects their identity and
  record what has happened: \<open>constructed\<close> lists the calls of \<^verbatim>\<open>webLLM(modelName, ...)\<close> with the
  handle each produced, \<open>started\<close> the initialization promises created with their model name,
  and \<open>settled\<close> the promises whose \<^verbatim>\<open>finally\<close> callback has run.

  \<^verbatim>\<open>webLLM(...)\<close>, \<^verbatim>\<open>new Worker(...)\<close> and \<^verbatim>\<open>createSerializedInferenceProxy\<close> are taken to
  return: the model has no branch for a constructor that throws.
\<close>

record registry =
  webLLMModels :: "jsstring \<rightharpoonup> nat"
  webLLMModelInitialization :: "jsstring \<rightharpoonup> nat"
  constructed :: "(jsstring \<times> nat) list"
  started :: "(jsstring \<times> nat) list"
  settled :: "nat list"

text \<open>The state when the module has been loaded: both maps are empty.\<close>

definition module_load :: registry where
  "module_load = \<lparr>webLLMModels = Map.empty, webLLMModelInitialization = Map.empty,
     constructed = [], started = [], settled = []\<rparr>"

text \<open>
  \<^verbatim>\<open>getOrCreateWebLLMModel\<close>. A handle is an object, hence truthy: \<^verbatim>\<open>if (!model)\<close> is the test
  that the map has no entry. The proxy wraps the constructed model and is what the map keeps.
\<close>

definition getOrCreateWebLLMModel :: "jsstring \<Rightarrow> registry \<Rightarrow> nat \<times> registry" where
  "getOrCreateWebLLMModel modelName s =
     (case webLLMModels s modelName of
        Some model \<Rightarrow> (model, s)
      | None \<Rightarrow>
          (let model = length (constructed s)
           in (model, s\<lparr>webLLMModels := (webLLMModels s)(modelName \<mapsto> model),
                         constructed := constructed s @ [(modelName, model)]\<rparr>)))"

text \<open>
  \<^verbatim>\<open>initializeWebLLMModel\<close>, from its entry to its \<^verbatim>\<open>return\<close>. The function is \<^verbatim>\<open>async\<close> but has no
  \<^verbatim>\<open>await\<close> of its own: the inner \<^verbatim>\<open>async\<close> function is called, runs to its first \<^verbatim>\<open>await\<close> and
  hands back \<^verbatim>\<open>initializationPromise\<close>, which is stored before the function returns. The call
  is therefore one uninterrupted section of the event loop.
\<close>

definition initializeWebLLMModel :: "jsstring \<Rightarrow> registry \<Rightarrow> nat \<times> registry" where
  "initializeWebLLMModel modelName s =
     (case webLLMModelInitialization s modelName of
        Some existingInitialization \<Rightarrow> (existingInitialization, s)
      | None \<Rightarrow>
          (let (model, s1) = getOrCreateWebLLMModel modelName s;
               initializationPromise = length (started s1)
           in (initializationPromise,
               s1\<lparr>webLLMModelInitialization :=
                     (webLLMModelInitialization s1)(modelName \<mapsto> initializationPromise),
                   started := started s1 @ [(modelName, initializationPromise)]\<rparr>)))"

text \<open>
  The \<^verbatim>\<open>factory\<close> of the provider registered by the plugin (\<^verbatim>\<open>options.model\<close> present; an empty
  name is falsy and makes it throw), and the body of the loop of
  \<^verbatim>\<open>preloadConfiguredWebLLMModels\<close>.
\<close>

datatype response = Model nat | Promise nat | Threw | Unit

definition factory :: "jsstring \<Rightarrow> registry \<Rightarrow> response \<times> registry" where
  "factory modelName s =
     (if modelName = [] then (Threw, s)
      else (let (model, s1) = getOrCreateWebLLMModel modelName s;
                (p, s2) = initializeWebLLMModel modelName s1
            in (Model model, s2)))"

text \<open>
  What can run between two turns of the event loop: a call of the factory, a preload of a
  name, or the \<^verbatim>\<open>finally\<close> callback of an initialization promise, which runs once, after the
  promise has settled, and deletes the entry of its model name. A run is any sequence of
  these; concurrent requests are requests with no \<^verbatim>\<open>finally\<close> callback of their name between
  them.
\<close>

datatype event = Factory jsstring | Preload jsstring | Finally nat

fun step :: "registry \<Rightarrow> event \<Rightarrow> (response \<times> registry) option" where
  "step s (Factory modelName) = Some (factory modelName s)"
| "step s (Preload modelName) =
     (let (p, s') = initializeWebLLMModel modelName s in Some (Promise p, s'))"
| "step s (Finally p) =
     (case find (\<lambda>(modelName, q). q = p) (started s) of
        None \<Rightarrow> None
      | Some (modelName, q) \<Rightarrow>
          if p \<in> set (settled s) then None
          else Some (Unit, s\<lparr>webLLMModelInitialization :=
                                (webLLMModelInitialization s)(modelName := None),
                              settled := p # settled s\<rparr>))"

fun run :: "registry \<Rightarrow> event list \<Rightarrow> (response list \<times> registry) option" where
  "run s [] = Some ([], s)"
| "run s (e # es) =
     (case step s e of
        None \<Rightarrow> None
      | Some (r, s') \<Rightarrow>
          (case run s' es of
             None \<Rightarrow> None
           | Some (rs, s'') \<Rightarrow> Some (r # rs, s'')))"

text \<open>The initializations of a name that have not settled, and the constructions of a name.\<close>

definition in_flight :: "registry \<Rightarrow> jsstring \<Rightarrow> (jsstring \<times> nat) list" where
  "in_flight s n = filter (\<lambda>(m, p). m = n \<and> p \<notin> set (settled s)) (started s)"

definition constructions :: "registry \<Rightarrow> jsstring \<Rightarrow> (jsstring \<times> nat) list" where
  "constructions s n = filter (\<lambda>(m, h). m = n) (constructed s)"

subsection \<open>Invariants of the registry\<close>

text \<open>
  \<open>models_inv\<close>: the constructions recorded for a name are exactly the handle the map holds
  for it, so a name without entry was never constructed and a name with an entry was
  constructed once. \<open>init_inv\<close>: the unsettled initializations of a name are exactly the
  promise the map holds for it; promise numbers are positions in \<open>started\<close>; and a name whose
  initialization is in flight has a handle.
\<close>

definition models_inv :: "registry \<Rightarrow> bool" where
  "models_inv s \<longleftrightarrow>
     (\<forall>n. constructions s n = (case webLLMModels s n of None \<Rightarrow> [] | Some h \<Rightarrow> [(n, h)]))"

definition init_inv :: "registry \<Rightarrow> bool" where
  "init_inv s \<longleftrightarrow>
     (\<forall>n. in_flight s n = (case webLLMModelInitialization s n of None \<Rightarrow> [] | Some p \<Rightarrow> [(n, p)]))
     \<and> map snd (started s) = [0..<length (started s)]
     \<and> (\<forall>q \<in> set (settled s). q < length (started s))
     \<and> (\<forall>n p. webLLMModelInitialization s n = Some p \<longrightarrow> webLLMModels s n \<noteq> None)"

lemma getOrCreate_cases:
  assumes "getOrCreateWebLLMModel n s = (h, s')"
  obtains (cached) "webLLMModels s n = Some h" "s' = s"
  | (created) "webLLMModels s n = None" "h = length (constructed s)"
      "s' = s\<lparr>webLLMModels := (webLLMModels s)(n \<mapsto> h),
               constructed := constructed s @ [(n, h)]\<rparr>"
  using assms
  by (cases "webLLMModels s n") (auto simp: getOrCreateWebLLMModel_def Let_def)

lemma getOrCreate_facts:
  assumes "getOrCreateWebLLMModel n s = (h, s')"
  shows "webLLMModels s' n = Some h"
    and "webLLMModels s m = Some h' \<Longrightarrow> webLLMModels s' m = Some h'"
    and "webLLMModelInitialization s' = webLLMModelInitialization s"
    and "started s' = started s" and "settled s' = settled s"
    and "m \<noteq> n \<Longrightarrow> webLLMModels s' m = webLLMModels s m"
  using assms by (cases rule: getOrCreate_cases; auto)+

lemma models_inv_getOrCreate:
  assumes g: "getOrCreateWebLLMModel n s = (h, s')" and i: "models_inv s"
  shows "models_inv s'"
  using g
proof (cases rule: getOrCreate_cases)
  case cached
  with i show ?thesis by simp
next
  case created
  show ?thesis
    unfolding models_inv_def
  proof
    fix m
    from i have "constructions s m = (case webLLMModels s m of None \<Rightarrow> [] | Some h \<Rightarrow> [(m, h)])"
      by (simp add: models_inv_def)
    with created show "constructions s' m = (case webLLMModels s' m of None \<Rightarrow> [] | Some h \<Rightarrow> [(m, h)])"
      by (cases "m = n") (auto simp: constructions_def)
  qed
qed

lemma started_bound:
  "init_inv s \<Longrightarrow> x \<in> set (started s) \<Longrightarrow> snd x < length (started s)"
proof -
  assume a: "init_inv s" "x \<in> set (started s)"
  then have "snd x \<in> set (map snd (started s))" by simp
  also have "map snd (started s) = [0..<length (started s)]" using a(1) by (simp add: init_inv_def)
  finally show ?thesis by simp
qed

lemma started_nth:
  assumes "init_inv s" "i < length (started s)"
  shows "snd (started s ! i) = i"
proof -
  have "snd (started s ! i) = map snd (started s) ! i" using assms(2) by simp
  also have "\<dots> = [0..<length (started s)] ! i" using assms(1) by (simp add: init_inv_def)
  also have "\<dots> = i" using assms(2) by simp
  finally show ?thesis .
qed

lemma started_functional:
  assumes "init_inv s" "(a, p) \<in> set (started s)" "(b, p) \<in> set (started s)"
  shows "a = b"
proof -
  from assms(2) obtain i where i: "i < length (started s)" "started s ! i = (a, p)"
    by (auto simp: in_set_conv_nth)
  from assms(3) obtain j where j: "j < length (started s)" "started s ! j = (b, p)"
    by (auto simp: in_set_conv_nth)
  from started_nth [OF assms(1) i(1)] i(2) have "i = p" by simp
  moreover from started_nth [OF assms(1) j(1)] j(2) have "j = p" by simp
  ultimately show ?thesis using i j by simp
qed

lemma in_flight_getOrCreate:
  "getOrCreateWebLLMModel n s = (h, s') \<Longrightarrow> in_flight s' m = in_flight s m"
  by (simp add: in_flight_def getOrCreate_facts)

lemma init_inv_getOrCreate:
  assumes g: "getOrCreateWebLLMModel n s = (h, s')" and i: "init_inv s"
  shows "init_inv s'"
proof -
  have "webLLMModels s' m \<noteq> None" if "webLLMModelInitialization s m = Some p" for m p
  proof -
    from i that obtain h' where "webLLMModels s m = Some h'" by (auto simp: init_inv_def)
    with g show ?thesis by (simp add: getOrCreate_facts(2))
  qed
  with i show ?thesis
    by (simp add: init_inv_def in_flight_getOrCreate [OF g] getOrCreate_facts(3-5) [OF g])
qed

lemma constructions_initialization_update [simp]:
  "constructions (s\<lparr>webLLMModelInitialization := f, started := g\<rparr>) n = constructions s n"
  "constructions (s\<lparr>webLLMModelInitialization := f, settled := k\<rparr>) n = constructions s n"
  by (simp_all add: constructions_def)

lemma initialize_cases:
  assumes "initializeWebLLMModel n s = (p, s')"
  obtains (existing) "webLLMModelInitialization s n = Some p" "s' = s"
  | (fresh) h s1 where "webLLMModelInitialization s n = None"
      "getOrCreateWebLLMModel n s = (h, s1)" "p = length (started s)"
      "s' = s1\<lparr>webLLMModelInitialization := (webLLMModelInitialization s)(n \<mapsto> p),
                started := started s @ [(n, p)]\<rparr>"
proof (cases "webLLMModelInitialization s n")
  case None
  obtain h s1 where g: "getOrCreateWebLLMModel n s = (h, s1)"
    by (cases "getOrCreateWebLLMModel n s") auto
  with None assms show ?thesis
    by (intro fresh [of h s1]) (auto simp: initializeWebLLMModel_def Let_def getOrCreate_facts)
next
  case (Some q)
  with assms show ?thesis by (intro existing) (auto simp: initializeWebLLMModel_def)
qed

lemma models_inv_initialize:
  assumes "initializeWebLLMModel n s = (p, s')" "models_inv s"
  shows "models_inv s'"
  using assms(1)
proof (cases rule: initialize_cases)
  case existing
  with assms show ?thesis by simp
next
  case (fresh h s1)
  from models_inv_getOrCreate [OF fresh(2) assms(2)] have "models_inv s1" .
  then show ?thesis by (simp add: fresh(4) models_inv_def)
qed

lemma init_inv_initialize:
  assumes "initializeWebLLMModel n s = (p, s')" "init_inv s"
  shows "init_inv s'"
  using assms(1)
proof (cases rule: initialize_cases)
  case existing
  with assms show ?thesis by simp
next
  case (fresh h s1)
  have st: "started s1 = started s" "settled s1 = settled s"
    using fresh(2) by (simp_all add: getOrCreate_facts)
  have bound: "\<forall>x \<in> set (started s). snd x < length (started s)"
    using assms(2) by (simp add: started_bound)
  have i1: "init_inv s1" using fresh(2) assms(2) by (rule init_inv_getOrCreate)
  have notset: "p \<notin> set (settled s)"
    using assms(2) fresh(3) by (auto simp: init_inv_def)
  have fl: "in_flight s m = (case webLLMModelInitialization s m of None \<Rightarrow> [] | Some p \<Rightarrow> [(m, p)])" for m
    using assms(2) by (simp add: init_inv_def)
  show ?thesis
    unfolding init_inv_def
  proof (intro conjI allI)
    fix m
    show "in_flight s' m = (case webLLMModelInitialization s' m of None \<Rightarrow> [] | Some p \<Rightarrow> [(m, p)])"
      using fl [of m] fresh(1) notset
      by (cases "m = n") (auto simp: in_flight_def fresh(4) st)
  next
    show "map snd (started s') = [0..<length (started s')]"
      using assms(2) by (simp add: fresh(3,4) st init_inv_def)
  next
    show "\<forall>q \<in> set (settled s'). q < length (started s')"
      using assms(2) by (auto simp: fresh(4) st init_inv_def)
  next
    fix m q
    show "webLLMModelInitialization s' m = Some q \<longrightarrow> webLLMModels s' m \<noteq> None"
      using i1 getOrCreate_facts(1,3) [OF fresh(2)]
      by (cases "m = n") (auto simp: fresh(4) init_inv_def)
  qed
qed

definition registry_inv :: "registry \<Rightarrow> bool" where
  "registry_inv s \<longleftrightarrow> models_inv s \<and> init_inv s"

lemma registry_inv_module_load: "registry_inv module_load"
  by (simp add: registry_inv_def models_inv_def init_inv_def module_load_def
                constructions_def in_flight_def)

lemma finally_cases:
  assumes "step s (Finally p) = Some (r, s')"
  obtains m where "(m, p) \<in> set (started s)" "p \<notin> set (settled s)" "r = Unit"
    "s' = s\<lparr>webLLMModelInitialization := (webLLMModelInitialization s)(m := None),
             settled := p # settled s\<rparr>"
proof -
  from assms obtain m q where f: "find (\<lambda>(modelName, q). q = p) (started s) = Some (m, q)"
    by (cases "find (\<lambda>(modelName, q). q = p) (started s)") auto
  then have "q = p" "(m, p) \<in> set (started s)"
    by (auto simp: find_Some_iff in_set_conv_nth)
  with assms f that [of m] show ?thesis by (auto split: if_splits)
qed

lemma init_inv_finally:
  assumes st: "step s (Finally p) = Some (r, s')" and i: "init_inv s"
  shows "init_inv s'"
  using st
proof (cases rule: finally_cases)
  case (1 m)
  have fl: "in_flight s k = (case webLLMModelInitialization s k of None \<Rightarrow> [] | Some p \<Rightarrow> [(k, p)])" for k
    using i by (simp add: init_inv_def)
  have mem: "(m, p) \<in> set (in_flight s m)" using 1(1,2) by (simp add: in_flight_def)
  with fl [of m] have im: "webLLMModelInitialization s m = Some p"
    by (cases "webLLMModelInitialization s m") auto
  have f': "in_flight s' k = filter (\<lambda>(a, b). b \<noteq> p) (in_flight s k)" for k
    by (auto simp: in_flight_def 1(4) intro: filter_cong)
  show ?thesis
    unfolding init_inv_def
  proof (intro conjI allI)
    fix k
    show "in_flight s' k = (case webLLMModelInitialization s' k of None \<Rightarrow> [] | Some p \<Rightarrow> [(k, p)])"
    proof (cases "k = m")
      case True
      with fl [of m] im show ?thesis by (simp add: f') (simp add: 1(4))
    next
      case False
      show ?thesis
      proof (cases "webLLMModelInitialization s k")
        case None
        with fl [of k] False show ?thesis by (simp add: f') (simp add: 1(4))
      next
        case (Some q)
        with fl [of k] have "(k, q) \<in> set (in_flight s k)" by simp
        then have "(k, q) \<in> set (started s)" by (simp add: in_flight_def)
        with started_functional [OF i _ 1(1)] False have "q \<noteq> p" by blast
        with fl [of k] Some False show ?thesis by (simp add: f') (simp add: 1(4))
      qed
    qed
  next
    show "map snd (started s') = [0..<length (started s')]"
      using i by (simp add: 1(4) init_inv_def)
  next
    show "\<forall>q \<in> set (settled s'). q < length (started s')"
      using i started_bound [OF i 1(1)] by (auto simp: 1(4) init_inv_def)
  next
    fix n q
    show "webLLMModelInitialization s' n = Some q \<longrightarrow> webLLMModels s' n \<noteq> None"
      using i by (auto simp: 1(4) init_inv_def split: if_splits)
  qed
qed

lemma factory_cases:
  assumes "step s (Factory n) = Some (r, s')"
  obtains (threw) "n = []" "r = Threw" "s' = s"
  | (model) h s1 p where "n \<noteq> []" "r = Model h" "getOrCreateWebLLMModel n s = (h, s1)"
      "initializeWebLLMModel n s1 = (p, s')"
proof (cases "n = []")
  case True
  with assms threw show ?thesis by (simp add: factory_def)
next
  case False
  obtain h s1 where g: "getOrCreateWebLLMModel n s = (h, s1)"
    by (cases "getOrCreateWebLLMModel n s") auto
  obtain p s2 where i: "initializeWebLLMModel n s1 = (p, s2)"
    by (cases "initializeWebLLMModel n s1") auto
  from assms False g i have "r = Model h" "s' = s2" by (simp_all add: factory_def)
  with False g i model show ?thesis by blast
qed

lemma preload_cases:
  assumes "step s (Preload n) = Some (r, s')"
  obtains p where "r = Promise p" "initializeWebLLMModel n s = (p, s')"
  using assms by (cases "initializeWebLLMModel n s") auto

lemma registry_inv_step:
  assumes "step s e = Some (r, s')" "registry_inv s"
  shows "registry_inv s'"
proof (cases e)
  case (Factory n)
  with assms(1) have "step s (Factory n) = Some (r, s')" by simp
  then show ?thesis
  proof (cases rule: factory_cases)
    case threw
    with assms(2) show ?thesis by simp
  next
    case (model h s1 p)
    from assms(2) model(3) have "registry_inv s1"
      by (auto simp: registry_inv_def intro: models_inv_getOrCreate init_inv_getOrCreate)
    with model(4) show ?thesis
      by (auto simp: registry_inv_def intro: models_inv_initialize init_inv_initialize)
  qed
next
  case (Preload n)
  with assms(1) have "step s (Preload n) = Some (r, s')" by simp
  then show ?thesis
  proof (cases rule: preload_cases)
    case (1 p)
    with assms(2) show ?thesis
      by (auto simp: registry_inv_def intro: models_inv_initialize init_inv_initialize)
  qed
next
  case (Finally p)
  with assms(1) have st: "step s (Finally p) = Some (r, s')" by simp
  then have "init_inv s'" using assms(2) by (auto simp: registry_inv_def intro: init_inv_finally)
  moreover from st have "models_inv s'"
    using assms(2) by (cases rule: finally_cases) (simp add: registry_inv_def models_inv_def)
  ultimately show ?thesis by (simp add: registry_inv_def)
qed

lemma run_cons:
  "run s (e # es) = Some (rs, s'') \<longleftrightarrow>
     (\<exists>r s' rs'. step s e = Some (r, s') \<and> run s' es = Some (rs', s'') \<and> rs = r # rs')"
  by (auto split: option.splits)

lemma run_append:
  "run s (xs @ ys) = Some (rs, s'') \<longleftrightarrow>
     (\<exists>r1 s' r2. run s xs = Some (r1, s') \<and> run s' ys = Some (r2, s'') \<and> rs = r1 @ r2
        \<and> length r1 = length xs)"
proof (induction xs arbitrary: s rs)
  case Nil
  show ?case by auto
next
  case (Cons x xs)
  show ?case
    unfolding append_Cons run_cons Cons.IH by (auto; blast?) 
qed

lemma registry_inv_run:
  "run s es = Some (rs, s') \<Longrightarrow> registry_inv s \<Longrightarrow> registry_inv s'"
proof (induction es arbitrary: s rs)
  case Nil
  then show ?case by simp
next
  case (Cons e es)
  from Cons.prems(1) obtain r s1 rs1 where "step s e = Some (r, s1)" "run s1 es = Some (rs1, s')"
    unfolding run_cons by blast
  with Cons.IH Cons.prems(2) registry_inv_step show ?case by blast
qed

lemma initialize_facts:
  assumes "initializeWebLLMModel n s = (p, s')"
  shows "webLLMModelInitialization s' n = Some p"
    and "webLLMModels s m = Some h \<Longrightarrow> webLLMModels s' m = Some h"
    and "set (started s) \<subseteq> set (started s')"
    and "webLLMModelInitialization s m = Some q \<Longrightarrow> webLLMModelInitialization s' m = Some q"
  using assms
  by (cases rule: initialize_cases; auto simp: getOrCreate_facts)+

subsection \<open>Entries of the handle map are never removed\<close>

lemma step_models_mono:
  assumes "step s e = Some (r, s')" "webLLMModels s n = Some h"
  shows "webLLMModels s' n = Some h"
proof (cases e)
  case (Factory m)
  with assms(1) have "step s (Factory m) = Some (r, s')" by simp
  then show ?thesis
    using assms(2)
    by (cases rule: factory_cases) (auto simp: getOrCreate_facts(2) initialize_facts(2))
next
  case (Preload m)
  with assms(1) have "step s (Preload m) = Some (r, s')" by simp
  then show ?thesis
    using assms(2) by (cases rule: preload_cases) (auto simp: initialize_facts(2))
next
  case (Finally p)
  with assms(1) have "step s (Finally p) = Some (r, s')" by simp
  then show ?thesis using assms(2) by (cases rule: finally_cases) simp
qed

lemma step_started_mono:
  assumes "step s e = Some (r, s')"
  shows "set (started s) \<subseteq> set (started s')"
proof (cases e)
  case (Factory m)
  with assms(1) have "step s (Factory m) = Some (r, s')" by simp
  then show ?thesis
  proof (cases rule: factory_cases)
    case threw
    then show ?thesis by simp
  next
    case (model h s1 p)
    from model(3) have "started s1 = started s" by (simp add: getOrCreate_facts)
    with initialize_facts(3) [OF model(4)] show ?thesis by simp
  qed
next
  case (Preload m)
  with assms(1) have "step s (Preload m) = Some (r, s')" by simp
  then show ?thesis by (cases rule: preload_cases) (auto dest: initialize_facts(3))
next
  case (Finally p)
  with assms(1) have "step s (Finally p) = Some (r, s')" by simp
  then show ?thesis by (cases rule: finally_cases) simp
qed

lemma run_models_mono:
  "run s es = Some (rs, s') \<Longrightarrow> webLLMModels s n = Some h \<Longrightarrow> webLLMModels s' n = Some h"
proof (induction es arbitrary: s rs)
  case Nil
  then show ?case by simp
next
  case (Cons e es)
  from Cons.prems(1) obtain r s1 rs1 where "step s e = Some (r, s1)" "run s1 es = Some (rs1, s')"
    unfolding run_cons by blast
  with Cons.IH Cons.prems(2) step_models_mono show ?case by blast
qed

lemma run_started_mono:
  "run s es = Some (rs, s') \<Longrightarrow> set (started s) \<subseteq> set (started s')"
proof (induction es arbitrary: s rs)
  case Nil
  then show ?case by simp
next
  case (Cons e es)
  from Cons.prems(1) obtain r s1 rs1 where "step s e = Some (r, s1)" "run s1 es = Some (rs1, s')"
    unfolding run_cons by blast
  with Cons.IH step_started_mono show ?case by blast
qed

text \<open>An entry of the initialization map stays while no \<open>finally\<close> callback of a promise of its name runs.\<close>

lemma step_initialization_stays:
  assumes st: "step s e = Some (r, s')" and i: "init_inv s"
    and e: "webLLMModelInitialization s n = Some p"
    and nf: "\<forall>q. e = Finally q \<longrightarrow> (n, q) \<notin> set (started s')"
  shows "webLLMModelInitialization s' n = Some p"
proof (cases e)
  case (Factory m)
  with st have "step s (Factory m) = Some (r, s')" by simp
  then show ?thesis
  proof (cases rule: factory_cases)
    case threw
    with e show ?thesis by simp
  next
    case (model h s1 q)
    from model(3) e have "webLLMModelInitialization s1 n = Some p" by (simp add: getOrCreate_facts)
    with model(4) show ?thesis by (simp add: initialize_facts(4))
  qed
next
  case (Preload m)
  with st have "step s (Preload m) = Some (r, s')" by simp
  then show ?thesis using e by (cases rule: preload_cases) (simp add: initialize_facts(4))
next
  case (Finally q)
  with st have "step s (Finally q) = Some (r, s')" by simp
  then show ?thesis
  proof (cases rule: finally_cases)
    case (1 m)
    from nf Finally 1(4) have "(n, q) \<notin> set (started s)" by simp
    with 1(1) have "m \<noteq> n" by auto
    with e show ?thesis by (simp add: 1(4))
  qed
qed

lemma run_initialization_stays:
  assumes "run s es = Some (rs, s')" "registry_inv s"
    and "webLLMModelInitialization s n = Some p"
    and "\<forall>q. Finally q \<in> set es \<longrightarrow> (n, q) \<notin> set (started s')"
  shows "webLLMModelInitialization s' n = Some p"
  using assms
proof (induction es arbitrary: s rs)
  case Nil
  then show ?case by simp
next
  case (Cons e es)
  from Cons.prems(1) obtain r s1 rs1 where s1: "step s e = Some (r, s1)" "run s1 es = Some (rs1, s')"
    unfolding run_cons by blast
  have sub: "set (started s1) \<subseteq> set (started s')" using s1(2) by (rule run_started_mono)
  have "\<forall>q. e = Finally q \<longrightarrow> (n, q) \<notin> set (started s1)"
    using Cons.prems(4) sub by auto
  with s1(1) Cons.prems(2,3) have "webLLMModelInitialization s1 n = Some p"
    by (intro step_initialization_stays [of s e r s1]) (auto simp: registry_inv_def)
  moreover have "registry_inv s1" using s1(1) Cons.prems(2) by (rule registry_inv_step)
  ultimately show ?case using Cons.IH [OF s1(2)] Cons.prems(4) by simp
qed

text \<open>What a request returns, read off the state after any continuation.\<close>

lemma run_factory_response:
  assumes "run s es = Some (rs, s')" "i < length es" "es ! i = Factory n" "n \<noteq> []"
  shows "\<exists>h. rs ! i = Model h \<and> webLLMModels s' n = Some h"
  using assms
proof (induction es arbitrary: s rs i)
  case Nil
  then show ?case by simp
next
  case (Cons e es)
  from Cons.prems(1) obtain r s1 rs1 where s1: "step s e = Some (r, s1)"
    "run s1 es = Some (rs1, s')" "rs = r # rs1"
    unfolding run_cons by blast
  show ?case
  proof (cases i)
    case 0
    with Cons.prems(3) s1(1) have "step s (Factory n) = Some (r, s1)" by simp
    then obtain h where "r = Model h" "webLLMModels s1 n = Some h"
      using Cons.prems(4)
      by (cases rule: factory_cases) (auto simp: getOrCreate_facts(1) initialize_facts(2))
    with run_models_mono [OF s1(2)] 0 s1(3) show ?thesis by simp
  next
    case (Suc j)
    with Cons.prems(2,3) have "j < length es" "es ! j = Factory n" by simp_all
    from Cons.IH [OF s1(2) this Cons.prems(4)] Suc s1(3) show ?thesis by simp
  qed
qed

lemma run_preload_response:
  assumes "run s es = Some (rs, s')" "registry_inv s" "i < length es" "es ! i = Preload n"
    and "\<forall>q. Finally q \<in> set es \<longrightarrow> (n, q) \<notin> set (started s')"
  shows "\<exists>p. rs ! i = Promise p \<and> webLLMModelInitialization s' n = Some p"
  using assms
proof (induction es arbitrary: s rs i)
  case Nil
  then show ?case by simp
next
  case (Cons e es)
  from Cons.prems(1) obtain r s1 rs1 where s1: "step s e = Some (r, s1)"
    "run s1 es = Some (rs1, s')" "rs = r # rs1"
    unfolding run_cons by blast
  have inv1: "registry_inv s1" using s1(1) Cons.prems(2) by (rule registry_inv_step)
  have nf: "\<forall>q. Finally q \<in> set es \<longrightarrow> (n, q) \<notin> set (started s')"
    using Cons.prems(5) by simp
  show ?case
  proof (cases i)
    case 0
    with Cons.prems(4) s1(1) have "step s (Preload n) = Some (r, s1)" by simp
    then obtain p where "r = Promise p" "webLLMModelInitialization s1 n = Some p"
      by (cases rule: preload_cases) (auto simp: initialize_facts(1))
    with run_initialization_stays [OF s1(2) inv1 _ nf] 0 s1(3) show ?thesis by simp
  next
    case (Suc j)
    with Cons.prems(3,4) have "j < length es" "es ! j = Preload n" by simp_all
    from Cons.IH [OF s1(2) inv1 this nf] Suc s1(3) show ?thesis by simp
  qed
qed

lemma run_request_flight:
  assumes "run s es = Some (rs, s')" "registry_inv s"
    and "Factory n \<in> set es \<or> Preload n \<in> set es" "n \<noteq> []"
    and "\<forall>q. Finally q \<in> set es \<longrightarrow> (n, q) \<notin> set (started s')"
  shows "webLLMModelInitialization s' n \<noteq> None"
  using assms
proof (induction es arbitrary: s rs)
  case Nil
  then show ?case by simp
next
  case (Cons e es)
  from Cons.prems(1) obtain r s1 rs1 where s1: "step s e = Some (r, s1)"
    "run s1 es = Some (rs1, s')" "rs = r # rs1"
    unfolding run_cons by blast
  have inv1: "registry_inv s1" using s1(1) Cons.prems(2) by (rule registry_inv_step)
  have nf: "\<forall>q. Finally q \<in> set es \<longrightarrow> (n, q) \<notin> set (started s')"
    using Cons.prems(5) by simp
  show ?case
  proof (cases "e = Factory n \<or> e = Preload n")
    case True
    then have "\<exists>p. webLLMModelInitialization s1 n = Some p"
    proof
      assume "e = Factory n"
      with s1(1) have "step s (Factory n) = Some (r, s1)" by simp
      then show ?thesis
        using Cons.prems(4) by (cases rule: factory_cases) (auto simp: initialize_facts(1))
    next
      assume "e = Preload n"
      with s1(1) have "step s (Preload n) = Some (r, s1)" by simp
      then show ?thesis by (cases rule: preload_cases) (auto simp: initialize_facts(1))
    qed
    then obtain p where "webLLMModelInitialization s1 n = Some p" by blast
    from run_initialization_stays [OF s1(2) inv1 this nf] show ?thesis by simp
  next
    case False
    with Cons.prems(3) have "Factory n \<in> set es \<or> Preload n \<in> set es" by auto
    from Cons.IH [OF s1(2) inv1 this Cons.prems(4) nf] show ?thesis .
  qed
qed

subsection \<open>Claim C7\<close>

text \<open>
  C7. Take any history \<open>pre\<close> of the registry followed by a block of events in which the model
  name \<open>n\<close> is requested at least once (through the factory or a preload) and no
  initialization of \<open>n\<close> completes (no \<^verbatim>\<open>finally\<close> callback of a promise of \<open>n\<close> runs). Then, over the
  whole history, \<^verbatim>\<open>webLLM(n, ...)\<close> was called exactly once, exactly one initialization of \<open>n\<close> is
  in flight, every factory call of the block returned the one handle the map holds for \<open>n\<close>,
  and every preload of the block got the one in-flight promise. The map holds one handle for
  the name, and whatever happens afterwards the entry stays and no further construction for
  \<open>n\<close> takes place: nothing evicts a handle. The name is not empty, since the factory rejects
  an empty name before it reaches the registry.
\<close>

theorem webLLM_single_flight:
  assumes run: "run module_load (pre @ block) = Some (rs, s)"
    and n: "n \<noteq> []"
    and req: "Factory n \<in> set block \<or> Preload n \<in> set block"
    and nf: "\<forall>q. Finally q \<in> set block \<longrightarrow> (n, q) \<notin> set (started s)"
  shows "\<exists>h p. constructions s n = [(n, h)] \<and> webLLMModels s n = Some h
           \<and> in_flight s n = [(n, p)] \<and> webLLMModelInitialization s n = Some p
           \<and> (\<forall>i < length block. block ! i = Factory n \<longrightarrow> rs ! (length pre + i) = Model h)
           \<and> (\<forall>i < length block. block ! i = Preload n \<longrightarrow> rs ! (length pre + i) = Promise p)
           \<and> (\<forall>post rs' s'. run s post = Some (rs', s') \<longrightarrow>
                 webLLMModels s' n = Some h \<and> constructions s' n = [(n, h)])"
proof -
  from run obtain r1 s0 r2 where pre: "run module_load pre = Some (r1, s0)"
    and block: "run s0 block = Some (r2, s)" and rs: "rs = r1 @ r2" "length r1 = length pre"
    unfolding run_append by blast
  have inv0: "registry_inv s0"
    using pre registry_inv_module_load by (rule registry_inv_run)
  have inv: "registry_inv s" using block inv0 by (rule registry_inv_run)
  from run_request_flight [OF block inv0 req n nf]
  obtain p where p: "webLLMModelInitialization s n = Some p" by blast
  with inv obtain h where h: "webLLMModels s n = Some h"
    by (auto simp: registry_inv_def init_inv_def)
  have c: "constructions s n = [(n, h)]"
    using inv h by (simp add: registry_inv_def models_inv_def)
  have f: "in_flight s n = [(n, p)]"
    using inv p by (simp add: registry_inv_def init_inv_def)
  have fac: "rs ! (length pre + i) = Model h" if "i < length block" "block ! i = Factory n" for i
    using run_factory_response [OF block that n] h rs by (auto simp: nth_append)
  have prel: "rs ! (length pre + i) = Promise p" if "i < length block" "block ! i = Preload n" for i
    using run_preload_response [OF block inv0 that nf] p rs by (auto simp: nth_append)
  have keep: "webLLMModels s' n = Some h \<and> constructions s' n = [(n, h)]"
    if "run s post = Some (rs', s')" for post rs' s'
  proof -
    have "webLLMModels s' n = Some h" using that h by (rule run_models_mono)
    moreover have "registry_inv s'" using that inv by (rule registry_inv_run)
    ultimately show ?thesis by (simp add: registry_inv_def models_inv_def)
  qed
  from c h f p fac prel keep show ?thesis by blast
qed

lemmas registry_eval = module_load_def factory_def getOrCreateWebLLMModel_def
  initializeWebLLMModel_def Let_def constructions_def in_flight_def

theorem webLLM_single_flight_witness:
  "\<exists>s. run module_load [Factory (str ''SmolLM2-360M''), Finally 0, Factory (str ''Qwen3-0.6B''),
                         Preload (str ''SmolLM2-360M''), Factory (str ''SmolLM2-360M'')]
         = Some ([Model 0, Unit, Model 1, Promise 2, Model 0], s)
       \<and> constructions s (str ''SmolLM2-360M'') = [(str ''SmolLM2-360M'', 0)]
       \<and> webLLMModels s (str ''SmolLM2-360M'') = Some 0
       \<and> in_flight s (str ''SmolLM2-360M'') = [(str ''SmolLM2-360M'', 2)]
       \<and> webLLMModelInitialization s (str ''SmolLM2-360M'') = Some 2"
proof -
  let ?n = "str ''SmolLM2-360M''"
  let ?pre = "[Factory ?n, Finally 0]"
  let ?block = "[Factory (str ''Qwen3-0.6B''), Preload ?n, Factory ?n]"
  have ne: "?n \<noteq> str ''Qwen3-0.6B''" "?n \<noteq> []" by (simp_all add: str_def)
  obtain rs s where r: "run module_load (?pre @ ?block) = Some (rs, s)"
    by (simp add: registry_eval str_def)
  have st: "started s = [(?n, 0), (str ''Qwen3-0.6B'', 1), (?n, 2)]"
    using r by (auto simp: registry_eval str_def)
  have rsv: "rs = [Model 0, Unit, Model 1, Promise 2, Model 0]"
    using r by (auto simp: registry_eval str_def)
  have req: "Factory ?n \<in> set ?block \<or> Preload ?n \<in> set ?block" by simp
  have nf: "\<forall>q. Finally q \<in> set ?block \<longrightarrow> (?n, q) \<notin> set (started s)"
    by (simp add: st str_def)
  from webLLM_single_flight [OF r ne(2) req nf]
  obtain h p where hp: "constructions s ?n = [(?n, h)]" "webLLMModels s ?n = Some h"
      "in_flight s ?n = [(?n, p)]" "webLLMModelInitialization s ?n = Some p"
      "\<forall>i < length ?block. ?block ! i = Factory ?n \<longrightarrow> rs ! (length ?pre + i) = Model h"
      "\<forall>i < length ?block. ?block ! i = Preload ?n \<longrightarrow> rs ! (length ?pre + i) = Promise p"
    by blast
  from hp(5) have "rs ! (length ?pre + 2) = Model h" by simp
  then have h: "h = 0" by (simp add: rsv)
  from hp(6) have "rs ! (length ?pre + 1) = Promise p" by simp
  then have p: "p = 2" by (simp add: rsv)
  from r rsv hp(1-4) h p show ?thesis by auto
qed

section \<open>InferenceSerializer: execution slots (chrome-ai-file-summarizer.ts)\<close>

subsection \<open>The queue of \<^verbatim>\<open>acquireModelExecutionSlot\<close>\<close>

text \<open>
  Every call of \<^verbatim>\<open>acquireModelExecutionSlot(model)\<close> makes a slot; slots are numbered in the
  order of the calls. A slot keeps what the call's closure keeps: the \<open>handle\<close> it was called
  with (model objects are identified by a number), the promise \<^verbatim>\<open>previous\<close> it read from
  \<^verbatim>\<open>modelExecutionQueue\<close> (the \<^verbatim>\<open>queueTail\<close> of the slot named, or \<open>None\<close> for the fresh
  \<^verbatim>\<open>Promise.resolve()\<close>), whether its promise \<^verbatim>\<open>current\<close> and its promise \<^verbatim>\<open>queueTail\<close> have been
  resolved, and the variable \<^verbatim>\<open>released\<close> of the callback. \<open>resumed\<close> is the program counter of
  the call: it is set when the call continues after \<^verbatim>\<open>await previous.catch(...)\<close> and returns
  the release callback. The map \<^verbatim>\<open>modelExecutionQueue\<close> holds for a handle the slot whose
  \<^verbatim>\<open>queueTail\<close> is stored for it.
\<close>

record slot =
  handle :: nat
  previous :: "nat option"
  current_resolved :: bool
  queueTail_resolved :: bool
  resumed :: bool
  released :: bool

record queue =
  slots :: "slot list"
  modelExecutionQueue :: "nat \<rightharpoonup> nat"

text \<open>The state before any call: no slot, an empty map.\<close>

definition no_calls :: queue where
  "no_calls = \<lparr>slots = [], modelExecutionQueue = Map.empty\<rparr>"

text \<open>
  Whether the promise \<^verbatim>\<open>previous\<close> of slot \<open>k\<close> is resolved. No promise of the queue is ever
  rejected, so \<^verbatim>\<open>previous.catch(() => undefined)\<close> settles exactly when \<^verbatim>\<open>previous\<close> does.
\<close>

definition previous_resolved :: "queue \<Rightarrow> nat \<Rightarrow> bool" where
  "previous_resolved q k =
     (case previous (slots q ! k) of
        None \<Rightarrow> True
      | Some j \<Rightarrow> queueTail_resolved (slots q ! j))"

text \<open>
  \<^verbatim>\<open>acquireModelExecutionSlot(model)\<close> up to its \<^verbatim>\<open>await\<close>: it reads the map, creates \<^verbatim>\<open>current\<close>
  and \<^verbatim>\<open>queueTail\<close>, and stores \<^verbatim>\<open>queueTail\<close> for the handle. The new slot has the next number.
\<close>

definition acquireModelExecutionSlot :: "nat \<Rightarrow> queue \<Rightarrow> queue" where
  "acquireModelExecutionSlot model q =
     q\<lparr>slots := slots q @ [\<lparr>handle = model, previous = modelExecutionQueue q model,
                            current_resolved = False, queueTail_resolved = False,
                            resumed = False, released = False\<rparr>],
       modelExecutionQueue := (modelExecutionQueue q)(model \<mapsto> length (slots q))\<rparr>"

text \<open>
  The callback that \<^verbatim>\<open>acquireModelExecutionSlot\<close> returns for slot \<open>k\<close>: nothing on a second call;
  on the first it sets \<^verbatim>\<open>released\<close>, resolves \<^verbatim>\<open>current\<close>, and deletes the entry of the handle
  when that entry is still the \<^verbatim>\<open>queueTail\<close> of this slot.
\<close>

definition releaseExecutionSlot :: "nat \<Rightarrow> queue \<Rightarrow> queue" where
  "releaseExecutionSlot k q =
     (if released (slots q ! k) then q
      else q\<lparr>slots := (slots q)[k := (slots q ! k)\<lparr>released := True, current_resolved := True\<rparr>],
             modelExecutionQueue :=
               (if modelExecutionQueue q (handle (slots q ! k)) = Some k
                then (modelExecutionQueue q)(handle (slots q ! k) := None)
                else modelExecutionQueue q)\<rparr>)"

declare acquireModelExecutionSlot_def [simp] releaseExecutionSlot_def [simp]

text \<open>
  The steps of the queue. \<open>Acquire model\<close> is the call up to its \<^verbatim>\<open>await\<close>. \<open>SettleTail k\<close> is
  the reaction \<^verbatim>\<open>.then(() => current)\<close> taking effect: \<^verbatim>\<open>queueTail\<close> resolves once \<^verbatim>\<open>previous\<close>
  and then \<^verbatim>\<open>current\<close> are resolved. \<open>Resume k\<close> is the continuation of the \<^verbatim>\<open>await\<close>, possible
  once \<^verbatim>\<open>previous\<close> is resolved. \<open>Release k\<close> is a call of the returned callback; the caller has
  the callback only after the \<^verbatim>\<open>await\<close>. A step that is not possible in a state gives \<open>None\<close>.
  The steps may be taken in any order in which they are possible, which covers every order
  in which the job queue may run the reactions.
\<close>

datatype call = Acquire nat | SettleTail nat | Resume nat | Release nat

fun qstep :: "queue \<Rightarrow> call \<Rightarrow> queue option" where
  "qstep q (Acquire model) = Some (acquireModelExecutionSlot model q)"
| "qstep q (SettleTail k) =
     (if k < length (slots q) \<and> \<not> queueTail_resolved (slots q ! k)
         \<and> previous_resolved q k \<and> current_resolved (slots q ! k)
      then Some (q\<lparr>slots := (slots q)[k := (slots q ! k)\<lparr>queueTail_resolved := True\<rparr>]\<rparr>)
      else None)"
| "qstep q (Resume k) =
     (if k < length (slots q) \<and> \<not> resumed (slots q ! k) \<and> previous_resolved q k
      then Some (q\<lparr>slots := (slots q)[k := (slots q ! k)\<lparr>resumed := True\<rparr>]\<rparr>)
      else None)"
| "qstep q (Release k) =
     (if k < length (slots q) \<and> resumed (slots q ! k)
      then Some (releaseExecutionSlot k q)
      else None)"

fun qrun :: "queue \<Rightarrow> call list \<Rightarrow> queue option" where
  "qrun q [] = Some q"
| "qrun q (c # cs) = (case qstep q c of None \<Rightarrow> None | Some q' \<Rightarrow> qrun q' cs)"

text \<open>
  A call holds its slot from the return of \<^verbatim>\<open>acquireModelExecutionSlot\<close> to the first call of
  the release callback.
\<close>

definition holding :: "queue \<Rightarrow> nat \<Rightarrow> bool" where
  "holding q k \<longleftrightarrow> resumed (slots q ! k) \<and> \<not> released (slots q ! k)"

subsection \<open>Invariants of the queue\<close>

text \<open>
  \<open>earlier_released q k\<close>: every slot of the same handle acquired before \<open>k\<close> has been released.
  \<open>links_inv\<close>: \<^verbatim>\<open>previous\<close> of a slot is the \<^verbatim>\<open>queueTail\<close> of the nearest earlier slot of its handle,
  or the fresh promise when all earlier ones were released. \<open>flags_inv\<close>: \<^verbatim>\<open>current\<close> is resolved
  by the release callback only, which exists only after the resumption. \<open>map_inv\<close>: the map
  names the latest slot of a handle, and a handle without entry has all its slots released.
  \<open>tails_inv\<close>: a resolved \<^verbatim>\<open>queueTail\<close> means its slot and all earlier slots of the handle were
  released. \<open>fifo\<close>: a resumed slot has all earlier slots of its handle released.
\<close>

definition earlier_released :: "queue \<Rightarrow> nat \<Rightarrow> bool" where
  "earlier_released q k \<longleftrightarrow>
     (\<forall>j < k. handle (slots q ! j) = handle (slots q ! k) \<longrightarrow> released (slots q ! j))"

definition links_inv :: "queue \<Rightarrow> bool" where
  "links_inv q \<longleftrightarrow>
     (\<forall>k. k < length (slots q) \<longrightarrow> previous (slots q ! k) = None \<longrightarrow> earlier_released q k)
     \<and> (\<forall>k j. k < length (slots q) \<longrightarrow> previous (slots q ! k) = Some j \<longrightarrow>
          j < k \<and> handle (slots q ! j) = handle (slots q ! k)
          \<and> (\<forall>i. j < i \<and> i < k \<longrightarrow> handle (slots q ! i) \<noteq> handle (slots q ! k)))"

definition flags_inv :: "queue \<Rightarrow> bool" where
  "flags_inv q \<longleftrightarrow>
     (\<forall>k < length (slots q).
        current_resolved (slots q ! k) = released (slots q ! k)
        \<and> (released (slots q ! k) \<longrightarrow> resumed (slots q ! k)))"

definition map_inv :: "queue \<Rightarrow> bool" where
  "map_inv q \<longleftrightarrow>
     (\<forall>m j. modelExecutionQueue q m = None \<longrightarrow> j < length (slots q) \<longrightarrow>
        handle (slots q ! j) = m \<longrightarrow> released (slots q ! j))
     \<and> (\<forall>m k. modelExecutionQueue q m = Some k \<longrightarrow>
          k < length (slots q) \<and> handle (slots q ! k) = m
          \<and> (\<forall>j < length (slots q). handle (slots q ! j) = m \<longrightarrow> j \<le> k))"

definition tails_inv :: "queue \<Rightarrow> bool" where
  "tails_inv q \<longleftrightarrow>
     (\<forall>k < length (slots q). queueTail_resolved (slots q ! k) \<longrightarrow>
        released (slots q ! k) \<and> earlier_released q k)"

definition fifo :: "queue \<Rightarrow> bool" where
  "fifo q \<longleftrightarrow> (\<forall>k < length (slots q). resumed (slots q ! k) \<longrightarrow> earlier_released q k)"

definition queue_inv :: "queue \<Rightarrow> bool" where
  "queue_inv q \<longleftrightarrow> links_inv q \<and> flags_inv q \<and> map_inv q \<and> tails_inv q \<and> fifo q"

lemma queue_inv_no_calls: "queue_inv no_calls"
  by (simp add: queue_inv_def links_inv_def flags_inv_def map_inv_def tails_inv_def fifo_def
                no_calls_def)

text \<open>The slot whose predecessor's tail is resolved has every earlier slot of its handle released.\<close>

lemma previous_resolved_earlier:
  assumes l: "links_inv q" and t: "tails_inv q" and k: "k < length (slots q)"
    and p: "previous_resolved q k"
  shows "earlier_released q k"
proof (cases "previous (slots q ! k)")
  case None
  with l k show ?thesis by (auto simp: links_inv_def)
next
  case (Some j)
  with l k have j: "j < k" "handle (slots q ! j) = handle (slots q ! k)"
    "\<forall>i. j < i \<and> i < k \<longrightarrow> handle (slots q ! i) \<noteq> handle (slots q ! k)"
    by (auto simp: links_inv_def)
  from p Some have "queueTail_resolved (slots q ! j)" by (simp add: previous_resolved_def)
  with t j(1) k have rj: "released (slots q ! j)" "earlier_released q j"
    by (auto simp: tails_inv_def)
  show ?thesis
    unfolding earlier_released_def
  proof (intro allI impI)
    fix i assume i: "i < k" "handle (slots q ! i) = handle (slots q ! k)"
    consider "i < j" | "i = j" | "j < i" by linarith
    then show "released (slots q ! i)"
    proof cases
      case 1
      with rj(2) i(2) j(2) show ?thesis by (simp add: earlier_released_def)
    next
      case 2
      with rj(1) show ?thesis by simp
    next
      case 3
      with j(3) i show ?thesis by blast
    qed
  qed
qed

text \<open>
  A step that changes flags of one slot keeps the length, the handles and the links; the
  parts of the invariant follow from what the step does to the flags.
\<close>

definition same_shape :: "queue \<Rightarrow> queue \<Rightarrow> bool" where
  "same_shape q q' \<longleftrightarrow>
     length (slots q') = length (slots q)
     \<and> (\<forall>i < length (slots q). handle (slots q' ! i) = handle (slots q ! i)
           \<and> previous (slots q' ! i) = previous (slots q ! i)
           \<and> (released (slots q ! i) \<longrightarrow> released (slots q' ! i)))"

lemma earlier_released_shape:
  "same_shape q q' \<Longrightarrow> k < length (slots q) \<Longrightarrow> earlier_released q k \<Longrightarrow> earlier_released q' k"
  by (auto simp: same_shape_def earlier_released_def)

lemma links_inv_shape:
  assumes "links_inv q" "same_shape q q'"
  shows "links_inv q'"
  unfolding links_inv_def
proof (rule conjI; intro allI impI)
  fix k assume k: "k < length (slots q')" "previous (slots q' ! k) = None"
  with assms(2) have "k < length (slots q)" "previous (slots q ! k) = None"
    by (auto simp: same_shape_def)
  with assms(1) have "earlier_released q k" by (simp add: links_inv_def)
  with assms(2) \<open>k < length (slots q)\<close> show "earlier_released q' k"
    by (rule earlier_released_shape)
next
  fix k j assume k: "k < length (slots q')" "previous (slots q' ! k) = Some j"
  with assms(2) have k': "k < length (slots q)" "previous (slots q ! k) = Some j"
    by (auto simp: same_shape_def)
  with assms(1) have j: "j < k" "handle (slots q ! j) = handle (slots q ! k)"
    "\<forall>i. j < i \<and> i < k \<longrightarrow> handle (slots q ! i) \<noteq> handle (slots q ! k)"
    unfolding links_inv_def by blast+
  have h: "handle (slots q' ! i) = handle (slots q ! i)" if "i \<le> k" for i
    using that k'(1) assms(2) by (simp add: same_shape_def)
  from j show "j < k \<and> handle (slots q' ! j) = handle (slots q' ! k)
      \<and> (\<forall>i. j < i \<and> i < k \<longrightarrow> handle (slots q' ! i) \<noteq> handle (slots q' ! k))"
    by (simp add: h)
qed

lemma map_inv_shape:
  assumes "map_inv q" "same_shape q q'" "modelExecutionQueue q' = modelExecutionQueue q"
  shows "map_inv q'"
  unfolding map_inv_def
proof (rule conjI; intro allI impI)
  fix m j assume "modelExecutionQueue q' m = None" "j < length (slots q')" "handle (slots q' ! j) = m"
  with assms(2,3) have "modelExecutionQueue q m = None" "j < length (slots q)" "handle (slots q ! j) = m"
    by (auto simp: same_shape_def)
  with assms(1) have "released (slots q ! j)" unfolding map_inv_def by blast
  with assms(2) \<open>j < length (slots q)\<close> show "released (slots q' ! j)"
    by (simp add: same_shape_def)
next
  fix m k assume "modelExecutionQueue q' m = Some k"
  with assms(3) have "modelExecutionQueue q m = Some k" by simp
  with assms(1) have k: "k < length (slots q)" "handle (slots q ! k) = m"
    "\<forall>j < length (slots q). handle (slots q ! j) = m \<longrightarrow> j \<le> k"
    unfolding map_inv_def by blast+
  with assms(2) show "k < length (slots q') \<and> handle (slots q' ! k) = m
      \<and> (\<forall>j < length (slots q'). handle (slots q' ! j) = m \<longrightarrow> j \<le> k)"
    by (auto simp: same_shape_def)
qed

lemma tails_inv_shape:
  assumes "tails_inv q" "same_shape q q'"
    and "\<forall>i < length (slots q). queueTail_resolved (slots q' ! i) \<longrightarrow> queueTail_resolved (slots q ! i)"
  shows "tails_inv q'"
  unfolding tails_inv_def
proof (intro allI impI)
  fix k assume "k < length (slots q')" "queueTail_resolved (slots q' ! k)"
  with assms(2,3) have k: "k < length (slots q)" "queueTail_resolved (slots q ! k)"
    by (auto simp: same_shape_def)
  with assms(1) have "released (slots q ! k)" "earlier_released q k"
    by (auto simp: tails_inv_def)
  with assms(2) k(1) show "released (slots q' ! k) \<and> earlier_released q' k"
    by (auto simp: same_shape_def intro: earlier_released_shape)
qed

lemma fifo_shape:
  assumes "fifo q" "same_shape q q'"
    and "\<forall>i < length (slots q). resumed (slots q' ! i) \<longrightarrow> resumed (slots q ! i)"
  shows "fifo q'"
  unfolding fifo_def
proof (intro allI impI)
  fix k assume "k < length (slots q')" "resumed (slots q' ! k)"
  with assms(2,3) have k: "k < length (slots q)" "resumed (slots q ! k)"
    by (auto simp: same_shape_def)
  with assms(1) have "earlier_released q k" by (auto simp: fifo_def)
  with assms(2) k(1) show "earlier_released q' k" by (rule earlier_released_shape)
qed

lemma flag_update_shape:
  assumes "k < length (slots q)" "handle x = handle (slots q ! k)"
    "previous x = previous (slots q ! k)" "released (slots q ! k) \<longrightarrow> released x"
  shows "same_shape q (q\<lparr>slots := (slots q)[k := x], modelExecutionQueue := f\<rparr>)"
    and "same_shape q (q\<lparr>slots := (slots q)[k := x]\<rparr>)"
  using assms by (auto simp: same_shape_def nth_list_update)

subsection \<open>Every step of the queue keeps the invariants\<close>

lemma flags_inv_update:
  assumes "flags_inv q" "k < length (slots q)"
    and "current_resolved x = released x" "released x \<longrightarrow> resumed x"
  shows "flags_inv (q\<lparr>slots := (slots q)[k := x], modelExecutionQueue := f\<rparr>)"
    and "flags_inv (q\<lparr>slots := (slots q)[k := x]\<rparr>)"
  using assms by (auto simp: flags_inv_def nth_list_update)

lemma resume_inv:
  assumes st: "qstep q (Resume k) = Some q'" and inv: "queue_inv q"
  shows "queue_inv q'"
proof -
  let ?x = "(slots q ! k)\<lparr>resumed := True\<rparr>"
  from st have k: "k < length (slots q)" "previous_resolved q k"
    and q': "q' = q\<lparr>slots := (slots q)[k := ?x]\<rparr>"
    by (auto split: if_splits)
  from inv have l: "links_inv q" and f: "flags_inv q" and m: "map_inv q"
    and t: "tails_inv q" and ff: "fifo q" by (simp_all add: queue_inv_def)
  have ek: "earlier_released q k" using l t k by (rule previous_resolved_earlier)
  have sh: "same_shape q q'" unfolding q' using k(1) by (intro flag_update_shape) simp_all
  have "links_inv q'" using l sh by (rule links_inv_shape)
  moreover have "flags_inv q'"
    unfolding q' using f k(1) by (intro flags_inv_update) (auto simp: flags_inv_def)
  moreover have "map_inv q'" using m sh by (rule map_inv_shape) (simp add: q')
  moreover have "tails_inv q'"
    using t sh by (rule tails_inv_shape) (use k(1) in \<open>auto simp: q' nth_list_update\<close>)
  moreover have "fifo q'"
    unfolding fifo_def
  proof (intro allI impI)
    fix i assume i: "i < length (slots q')" "resumed (slots q' ! i)"
    then have il: "i < length (slots q)" by (simp add: q')
    have "earlier_released q i"
    proof (cases "i = k")
      case True
      with ek show ?thesis by simp
    next
      case False
      with i il k(1) have "resumed (slots q ! i)" by (simp add: q')
      with ff il show ?thesis by (simp add: fifo_def)
    qed
    with sh il show "earlier_released q' i" by (rule earlier_released_shape)
  qed
  ultimately show ?thesis by (simp add: queue_inv_def)
qed

lemma settle_inv:
  assumes st: "qstep q (SettleTail k) = Some q'" and inv: "queue_inv q"
  shows "queue_inv q'"
proof -
  let ?x = "(slots q ! k)\<lparr>queueTail_resolved := True\<rparr>"
  from st have k: "k < length (slots q)" "previous_resolved q k" "current_resolved (slots q ! k)"
    and q': "q' = q\<lparr>slots := (slots q)[k := ?x]\<rparr>"
    by (auto split: if_splits)
  from inv have l: "links_inv q" and f: "flags_inv q" and m: "map_inv q"
    and t: "tails_inv q" and ff: "fifo q" by (simp_all add: queue_inv_def)
  have ek: "earlier_released q k" using l t k(1,2) by (rule previous_resolved_earlier)
  have rk: "released (slots q ! k)" using f k(1,3) by (simp add: flags_inv_def)
  have sh: "same_shape q q'" unfolding q' using k(1) by (intro flag_update_shape) simp_all
  have "links_inv q'" using l sh by (rule links_inv_shape)
  moreover have "flags_inv q'"
    unfolding q' using f k(1) by (intro flags_inv_update) (auto simp: flags_inv_def)
  moreover have "map_inv q'" using m sh by (rule map_inv_shape) (simp add: q')
  moreover have "fifo q'"
    using ff sh by (rule fifo_shape) (use k(1) in \<open>auto simp: q' nth_list_update\<close>)
  moreover have "tails_inv q'"
    unfolding tails_inv_def
  proof (intro allI impI)
    fix i assume i: "i < length (slots q')" "queueTail_resolved (slots q' ! i)"
    then have il: "i < length (slots q)" by (simp add: q')
    have "released (slots q ! i) \<and> earlier_released q i"
    proof (cases "i = k")
      case True
      with ek rk show ?thesis by simp
    next
      case False
      with i il k(1) have "queueTail_resolved (slots q ! i)" by (simp add: q')
      with t il show ?thesis by (simp add: tails_inv_def)
    qed
    with sh il show "released (slots q' ! i) \<and> earlier_released q' i"
      by (auto simp: same_shape_def intro: earlier_released_shape)
  qed
  ultimately show ?thesis by (simp add: queue_inv_def)
qed

lemma release_inv:
  assumes st: "qstep q (Release k) = Some q'" and inv: "queue_inv q"
  shows "queue_inv q'"
proof (cases "released (slots q ! k)")
  case True
  with st have "q' = q" by (auto split: if_splits)
  with inv show ?thesis by simp
next
  case False
  let ?x = "(slots q ! k)\<lparr>released := True, current_resolved := True\<rparr>"
  let ?f = "if modelExecutionQueue q (handle (slots q ! k)) = Some k
            then (modelExecutionQueue q)(handle (slots q ! k) := None)
            else modelExecutionQueue q"
  from st False have k: "k < length (slots q)" "resumed (slots q ! k)"
    and q': "q' = q\<lparr>slots := (slots q)[k := ?x], modelExecutionQueue := ?f\<rparr>"
    by (auto split: if_splits)
  from inv have l: "links_inv q" and f: "flags_inv q" and m: "map_inv q"
    and t: "tails_inv q" and ff: "fifo q" by (simp_all add: queue_inv_def)
  have ek: "earlier_released q k" using ff k by (simp add: fifo_def)
  have sh: "same_shape q q'" unfolding q' using k(1) by (intro flag_update_shape) simp_all
  have rel': "released (slots q' ! i) = (released (slots q ! i) \<or> i = k)"
    if "i < length (slots q)" for i
    using that k(1) by (auto simp: q' nth_list_update)
  have hd': "handle (slots q' ! i) = handle (slots q ! i)" if "i < length (slots q)" for i
    using that sh by (simp add: same_shape_def)
  have len: "length (slots q') = length (slots q)" by (simp add: q')
  have "links_inv q'" using l sh by (rule links_inv_shape)
  moreover have "flags_inv q'"
    unfolding q' using f k by (intro flags_inv_update) auto
  moreover have "tails_inv q'"
    using t sh by (rule tails_inv_shape) (use k(1) in \<open>auto simp: q' nth_list_update\<close>)
  moreover have "fifo q'"
    using ff sh by (rule fifo_shape) (use k(1) in \<open>auto simp: q' nth_list_update\<close>)
  moreover have "map_inv q'"
    unfolding map_inv_def
  proof (rule conjI; intro allI impI)
    fix mm j assume a: "modelExecutionQueue q' mm = None" "j < length (slots q')"
      "handle (slots q' ! j) = mm"
    then have jl: "j < length (slots q)" and hj: "handle (slots q ! j) = mm"
      by (simp_all add: len hd')
    show "released (slots q' ! j)"
    proof (cases "modelExecutionQueue q mm")
      case None
      with m jl hj have "released (slots q ! j)" unfolding map_inv_def by blast
      with jl show ?thesis by (simp add: rel')
    next
      case (Some k')
      with a(1) have del: "mm = handle (slots q ! k)" "modelExecutionQueue q (handle (slots q ! k)) = Some k"
        by (auto simp: q' split: if_splits)
      with m jl hj have "j \<le> k" unfolding map_inv_def by blast
      show ?thesis
      proof (cases "j = k")
        case True
        with jl show ?thesis by (simp add: rel')
      next
        case False
        with \<open>j \<le> k\<close> have "j < k" by simp
        with ek hj del(1) have "released (slots q ! j)" by (simp add: earlier_released_def)
        with jl show ?thesis by (simp add: rel')
      qed
    qed
  next
    fix mm k' assume a: "modelExecutionQueue q' mm = Some k'"
    then have "modelExecutionQueue q mm = Some k'" by (auto simp: q' split: if_splits)
    with m have "k' < length (slots q)" "handle (slots q ! k') = mm"
      "\<forall>j < length (slots q). handle (slots q ! j) = mm \<longrightarrow> j \<le> k'"
      unfolding map_inv_def by blast+
    then show "k' < length (slots q') \<and> handle (slots q' ! k') = mm
      \<and> (\<forall>j < length (slots q'). handle (slots q' ! j) = mm \<longrightarrow> j \<le> k')"
      by (simp add: len hd')
  qed
  ultimately show ?thesis by (simp add: queue_inv_def)
qed

lemma acquire_inv:
  assumes st: "qstep q (Acquire m) = Some q'" and inv: "queue_inv q"
  shows "queue_inv q'"
proof -
  let ?K = "length (slots q)"
  let ?new = "\<lparr>handle = m, previous = modelExecutionQueue q m, current_resolved = False,
               queueTail_resolved = False, resumed = False, released = False\<rparr>"
  from st have q': "q' = q\<lparr>slots := slots q @ [?new],
                           modelExecutionQueue := (modelExecutionQueue q)(m \<mapsto> ?K)\<rparr>"
    by simp
  from inv have l: "links_inv q" and f: "flags_inv q" and mi: "map_inv q"
    and t: "tails_inv q" and ff: "fifo q" by (simp_all add: queue_inv_def)
  have len: "length (slots q') = Suc ?K" by (simp add: q')
  have old: "slots q' ! i = slots q ! i" if "i < ?K" for i
    using that by (simp add: q' nth_append)
  have new: "slots q' ! ?K = ?new" by (simp add: q')
  have er: "earlier_released q' i = earlier_released q i" if "i < ?K" for i
    using that by (auto simp: earlier_released_def old)
  have "links_inv q'"
    unfolding links_inv_def
  proof (rule conjI; intro allI impI)
    fix k assume k: "k < length (slots q')" "previous (slots q' ! k) = None"
    show "earlier_released q' k"
    proof (cases "k = ?K")
      case True
      with k(2) have none: "modelExecutionQueue q m = None" by (simp add: new)
      have "released (slots q ! j)" if "j < ?K" "handle (slots q ! j) = m" for j
        using mi none that unfolding map_inv_def by blast
      then show ?thesis by (auto simp: earlier_released_def True new old)
    next
      case False
      with k len have kl: "k < ?K" by simp
      with k(2) l have "earlier_released q k" by (simp add: old links_inv_def)
      with kl show ?thesis by (simp add: er)
    qed
  next
    fix k j assume k: "k < length (slots q')" "previous (slots q' ! k) = Some j"
    show "j < k \<and> handle (slots q' ! j) = handle (slots q' ! k)
      \<and> (\<forall>i. j < i \<and> i < k \<longrightarrow> handle (slots q' ! i) \<noteq> handle (slots q' ! k))"
    proof (cases "k = ?K")
      case True
      with k(2) have some: "modelExecutionQueue q m = Some j" by (simp add: new)
      with mi have j: "j < ?K" "handle (slots q ! j) = m"
        "\<forall>i < ?K. handle (slots q ! i) = m \<longrightarrow> i \<le> j"
        unfolding map_inv_def by blast+
      then show ?thesis by (auto simp: True new old)
    next
      case False
      with k len have kl: "k < ?K" by simp
      with k(2) l have j: "j < k" "handle (slots q ! j) = handle (slots q ! k)"
        "\<forall>i. j < i \<and> i < k \<longrightarrow> handle (slots q ! i) \<noteq> handle (slots q ! k)"
        unfolding links_inv_def by (auto simp: old)
      with kl show ?thesis by (auto simp: old)
    qed
  qed
  moreover have "flags_inv q'"
    unfolding flags_inv_def
  proof (intro allI impI)
    fix k assume "k < length (slots q')"
    with len consider "k = ?K" | "k < ?K" by linarith
    then show "current_resolved (slots q' ! k) = released (slots q' ! k)
        \<and> (released (slots q' ! k) \<longrightarrow> resumed (slots q' ! k))"
    proof cases
      case 1
      then show ?thesis by (simp add: new)
    next
      case 2
      with f show ?thesis by (simp add: old flags_inv_def)
    qed
  qed
  moreover have "map_inv q'"
    unfolding map_inv_def
  proof (rule conjI; intro allI impI)
    fix mm j assume a: "modelExecutionQueue q' mm = None" "j < length (slots q')"
      "handle (slots q' ! j) = mm"
    from a(1) have mm: "mm \<noteq> m" "modelExecutionQueue q mm = None"
      by (auto simp: q' split: if_splits)
    with a(2,3) len have jl: "j < ?K" by (cases "j = ?K") (auto simp: new)
    with a(3) mi mm(2) have "released (slots q ! j)" unfolding map_inv_def by (auto simp: old)
    with jl show "released (slots q' ! j)" by (simp add: old)
  next
    fix mm k assume a: "modelExecutionQueue q' mm = Some k"
    show "k < length (slots q') \<and> handle (slots q' ! k) = mm
      \<and> (\<forall>j < length (slots q'). handle (slots q' ! j) = mm \<longrightarrow> j \<le> k)"
    proof (cases "mm = m")
      case True
      with a have "k = ?K" by (simp add: q')
      then show ?thesis by (auto simp: len new True)
    next
      case False
      with a have "modelExecutionQueue q mm = Some k" by (simp add: q')
      with mi have k: "k < ?K" "handle (slots q ! k) = mm"
        "\<forall>j < ?K. handle (slots q ! j) = mm \<longrightarrow> j \<le> k"
        unfolding map_inv_def by blast+
      have "j \<le> k" if "j < length (slots q')" "handle (slots q' ! j) = mm" for j
      proof (cases "j = ?K")
        case True
        with that(2) False show ?thesis by (simp add: new)
      next
        case False
        with that len have "j < ?K" by simp
        with that(2) k(3) show ?thesis by (simp add: old)
      qed
      with k(1,2) show ?thesis by (simp add: len old)
    qed
  qed
  moreover have "tails_inv q'"
    unfolding tails_inv_def
  proof (intro allI impI)
    fix k assume k: "k < length (slots q')" "queueTail_resolved (slots q' ! k)"
    then have kl: "k < ?K" using len by (cases "k = ?K") (auto simp: new)
    with k(2) t show "released (slots q' ! k) \<and> earlier_released q' k"
      by (simp add: old er tails_inv_def)
  qed
  moreover have "fifo q'"
    unfolding fifo_def
  proof (intro allI impI)
    fix k assume k: "k < length (slots q')" "resumed (slots q' ! k)"
    then have kl: "k < ?K" using len by (cases "k = ?K") (auto simp: new)
    with k(2) ff show "earlier_released q' k" by (simp add: old er fifo_def)
  qed
  ultimately show ?thesis by (simp add: queue_inv_def)
qed

lemma qstep_inv: "qstep q c = Some q' \<Longrightarrow> queue_inv q \<Longrightarrow> queue_inv q'"
  by (cases c) (auto intro: acquire_inv settle_inv resume_inv release_inv)

lemma qrun_inv: "qrun q cs = Some q' \<Longrightarrow> queue_inv q \<Longrightarrow> queue_inv q'"
proof (induction cs arbitrary: q)
  case Nil
  then show ?case by simp
next
  case (Cons c cs)
  from Cons.prems(1) obtain q1 where "qstep q c = Some q1" "qrun q1 cs = Some q'"
    by (auto split: option.splits)
  with Cons.IH Cons.prems(2) qstep_inv show ?case by blast
qed

text \<open>The slot the map names for a handle has not been released.\<close>

definition entries_inv :: "queue \<Rightarrow> bool" where
  "entries_inv q \<longleftrightarrow>
     (\<forall>m k. modelExecutionQueue q m = Some k \<longrightarrow> \<not> released (slots q ! k))"

lemma entries_inv_no_calls: "entries_inv no_calls"
  by (simp add: entries_inv_def no_calls_def)

lemma entries_inv_step:
  assumes st: "qstep q c = Some q'" and inv: "queue_inv q" and e: "entries_inv q"
  shows "entries_inv q'"
proof -
  from inv have mi: "map_inv q" by (simp add: queue_inv_def)
  have bound: "k < length (slots q)" "handle (slots q ! k) = m"
    if "modelExecutionQueue q m = Some k" for m k
    using mi that unfolding map_inv_def by blast+
  show ?thesis
  proof (cases c)
    case (Acquire m)
    with st have q': "q' = q\<lparr>slots := slots q @ [\<lparr>handle = m, previous = modelExecutionQueue q m,
         current_resolved = False, queueTail_resolved = False, resumed = False, released = False\<rparr>],
         modelExecutionQueue := (modelExecutionQueue q)(m \<mapsto> length (slots q))\<rparr>"
      by simp
    show ?thesis
      unfolding entries_inv_def
    proof (intro allI impI)
      fix mm k assume a: "modelExecutionQueue q' mm = Some k"
      show "\<not> released (slots q' ! k)"
      proof (cases "mm = m")
        case True
        with a have "k = length (slots q)" by (simp add: q')
        then show ?thesis by (simp add: q')
      next
        case False
        with a have old: "modelExecutionQueue q mm = Some k" by (simp add: q')
        with e have "\<not> released (slots q ! k)" by (simp add: entries_inv_def)
        with bound(1) [OF old] show ?thesis by (simp add: q' nth_append)
      qed
    qed
  next
    case (SettleTail k)
    with st have k: "k < length (slots q)"
      and q': "q' = q\<lparr>slots := (slots q)[k := (slots q ! k)\<lparr>queueTail_resolved := True\<rparr>]\<rparr>"
      by (auto split: if_splits)
    have "released (slots q' ! i) = released (slots q ! i)" for i
      using k by (cases "i = k") (simp_all add: q')
    with e show ?thesis by (simp add: entries_inv_def q')
  next
    case (Resume k)
    with st have k: "k < length (slots q)"
      and q': "q' = q\<lparr>slots := (slots q)[k := (slots q ! k)\<lparr>resumed := True\<rparr>]\<rparr>"
      by (auto split: if_splits)
    have "released (slots q' ! i) = released (slots q ! i)" for i
      using k by (cases "i = k") (simp_all add: q')
    with e show ?thesis by (simp add: entries_inv_def q')
  next
    case (Release k)
    with st have k: "k < length (slots q)" by (auto split: if_splits)
    show ?thesis
    proof (cases "released (slots q ! k)")
      case True
      with st Release k e show ?thesis by (auto split: if_splits)
    next
      case False
      with st Release have q': "q' = q\<lparr>slots := (slots q)[k := (slots q ! k)\<lparr>released := True,
                                                               current_resolved := True\<rparr>],
                         modelExecutionQueue :=
                           (if modelExecutionQueue q (handle (slots q ! k)) = Some k
                            then (modelExecutionQueue q)(handle (slots q ! k) := None)
                            else modelExecutionQueue q)\<rparr>"
        by (auto split: if_splits)
      show ?thesis
        unfolding entries_inv_def
      proof (intro allI impI)
        fix mm i assume a: "modelExecutionQueue q' mm = Some i"
        then have old: "modelExecutionQueue q mm = Some i"
          by (auto simp: q' split: if_splits)
        have "i \<noteq> k"
        proof
          assume "i = k"
          with bound(2) [OF old] have "handle (slots q ! k) = mm" by simp
          with old \<open>i = k\<close> a show False by (simp add: q')
        qed
        moreover from e old have "\<not> released (slots q ! i)" by (simp add: entries_inv_def)
        ultimately show "\<not> released (slots q' ! i)" by (simp add: q')
      qed
    qed
  qed
qed

lemma qrun_invs:
  "qrun q cs = Some q' \<Longrightarrow> queue_inv q \<Longrightarrow> entries_inv q \<Longrightarrow> queue_inv q' \<and> entries_inv q'"
proof (induction cs arbitrary: q)
  case Nil
  then show ?case by simp
next
  case (Cons c cs)
  from Cons.prems(1) obtain q1 where s: "qstep q c = Some q1" "qrun q1 cs = Some q'"
    by (auto split: option.splits)
  from s(1) Cons.prems(2,3) have "queue_inv q1" "entries_inv q1"
    by (auto intro: qstep_inv entries_inv_step)
  with Cons.IH s(2) show ?case by blast
qed

text \<open>Slots are only appended, and the handle of a slot never changes.\<close>

lemma qstep_handles:
  assumes "qstep q c = Some q'"
  shows "length (slots q) \<le> length (slots q')
    \<and> (\<forall>i < length (slots q). handle (slots q' ! i) = handle (slots q ! i))"
proof (cases c)
  case (Acquire m)
  with assms show ?thesis by (auto simp: nth_append)
next
  case (SettleTail k)
  with assms show ?thesis by (auto simp: nth_list_update split: if_splits)
next
  case (Resume k)
  with assms show ?thesis by (auto simp: nth_list_update split: if_splits)
next
  case (Release k)
  with assms show ?thesis by (auto simp: nth_list_update split: if_splits)
qed

lemmas queue_eval = no_calls_def previous_resolved_def holding_def

text \<open>The second of two calls on a handle cannot be resumed while the first has not released.\<close>

lemma second_caller_waits: "qrun no_calls [Acquire 7, Acquire 7, Resume 1] = None"
  by (simp add: queue_eval)

declare acquireModelExecutionSlot_def [simp del] releaseExecutionSlot_def [simp del]

subsection \<open>The proxy: \<^verbatim>\<open>serializedDoGenerate\<close>, \<^verbatim>\<open>serializedDoStream\<close>, \<^verbatim>\<open>wrapSerializedStream\<close>\<close>

text \<open>
  \<^verbatim>\<open>createSerializedInferenceProxy\<close> answers \<^verbatim>\<open>doGenerate\<close> and \<^verbatim>\<open>doStream\<close> of a model by functions
  that take an execution slot first. An invocation is one call of either function;
  invocation \<open>k\<close> owns slot \<open>k\<close> of the queue. Its record keeps
  \<^item> \<open>kind\<close>: which of the two functions was called;
  \<^item> \<open>begun\<close>: the continuation of \<^verbatim>\<open>await acquireModelExecutionSlot(model)\<close> has run and has
    called \<^verbatim>\<open>originalDoGenerate\<close> or \<^verbatim>\<open>originalDoStream\<close>;
  \<^item> \<open>outcome\<close>: the promise that call returned, \<open>None\<close> while pending, \<open>Some True\<close> fulfilled,
    \<open>Some False\<close> rejected;
  \<^item> \<open>returned\<close>: the continuation of \<^verbatim>\<open>await originalDoGenerate(...)\<close> or
    \<^verbatim>\<open>await originalDoStream(...)\<close> has run;
  \<^item> \<open>stream\<close>: the state of \<^verbatim>\<open>streamResult.stream\<close> as its reader sees it, \<open>Open\<close> while
    \<^verbatim>\<open>reader.read()\<close> delivers chunks, \<open>Closed\<close> when it reports \<^verbatim>\<open>done\<close>, \<open>Errored\<close> when it rejects;
  \<^item> \<open>cancelling\<close>: \<^verbatim>\<open>cancel\<close> of the wrapper has called \<^verbatim>\<open>reader.cancel(reason)\<close> and awaits it;
  \<^item> \<open>wrapper_released\<close>: the variable \<^verbatim>\<open>released\<close> of \<^verbatim>\<open>wrapSerializedStream\<close>.

  The original methods and the source stream belong to the wrapped model: when the call
  settles and when the stream ends are steps of the environment. The stream of a fulfilled
  \<^verbatim>\<open>doStream\<close> is taken to be unlocked, so that \<^verbatim>\<open>source.getReader()\<close> and the construction of
  the wrapper return.
\<close>

datatype kind = DoGenerate | DoStream

datatype source = Open | Closed | Errored

record invocation =
  kind :: kind
  begun :: bool
  outcome :: "bool option"
  returned :: bool
  stream :: source
  cancelling :: bool
  wrapper_released :: bool

record proxy =
  locks :: queue
  invocations :: "invocation list"

definition no_invocations :: proxy where
  "no_invocations = \<lparr>locks = no_calls, invocations = []\<rparr>"

text \<open>The wrapper of invocation \<open>k\<close> exists: \<^verbatim>\<open>serializedDoStream\<close> has returned it.\<close>

definition wrapped :: "proxy \<Rightarrow> nat \<Rightarrow> bool" where
  "wrapped s k \<longleftrightarrow>
     k < length (invocations s) \<and> kind (invocations s ! k) = DoStream
     \<and> outcome (invocations s ! k) = Some True \<and> returned (invocations s ! k)"

text \<open>\<^verbatim>\<open>release\<close> of \<^verbatim>\<open>wrapSerializedStream\<close>.\<close>

definition release :: "nat \<Rightarrow> proxy \<Rightarrow> proxy" where
  "release k s =
     (if wrapper_released (invocations s ! k) then s
      else s\<lparr>invocations := (invocations s)[k := (invocations s ! k)\<lparr>wrapper_released := True\<rparr>],
             locks := releaseExecutionSlot k (locks s)\<rparr>)"

text \<open>
  The steps of the proxy.
  \<^item> \<open>Call m model\<close>: the function is called and runs into \<^verbatim>\<open>acquireModelExecutionSlot\<close> up to
    the \<^verbatim>\<open>await\<close> there.
  \<^item> \<open>TailSettles k\<close>, \<open>Granted k\<close>: the steps \<open>SettleTail k\<close> and \<open>Resume k\<close> of the queue.
  \<^item> \<open>Begin k\<close>: the continuation of \<^verbatim>\<open>await acquireModelExecutionSlot(model)\<close> calls the
    original method.
  \<^item> \<open>Settles k fulfilled\<close>: the promise of the original method settles.
  \<^item> \<open>Return k\<close>: the continuation of the \<^verbatim>\<open>await\<close> of that promise. In \<^verbatim>\<open>serializedDoGenerate\<close>
    the \<^verbatim>\<open>finally\<close> block calls \<^verbatim>\<open>releaseExecutionSlot()\<close>; in \<^verbatim>\<open>serializedDoStream\<close> the \<^verbatim>\<open>catch\<close>
    block does so after a rejection, and after a fulfilment the stream is wrapped and the
    slot is kept.
  \<^item> \<open>SourceEnds k failed\<close>: the source stream closes or fails.
  \<^item> \<open>Pull k\<close>: the continuation of \<^verbatim>\<open>await reader.read()\<close> in \<^verbatim>\<open>pull\<close> of the wrapper: a chunk is
    enqueued while the source is open; on \<^verbatim>\<open>done\<close> and on an error \<^verbatim>\<open>release()\<close> is called
    (\<^verbatim>\<open>controller.enqueue\<close> itself fails only on a wrapper that was cancelled, closed or
    failed, when the source has ended already).
  \<^item> \<open>Cancel k\<close>: \<^verbatim>\<open>cancel\<close> of the wrapper calls \<^verbatim>\<open>reader.cancel(reason)\<close>, which closes an open
    source; \<open>Cancelled k\<close>: its \<^verbatim>\<open>finally\<close> block calls \<^verbatim>\<open>release()\<close>.
\<close>

datatype action =
    Call kind nat
  | TailSettles nat
  | Granted nat
  | Begin nat
  | Settles nat bool
  | Return nat
  | SourceEnds nat bool
  | Pull nat
  | Cancel nat
  | Cancelled nat

fun proxy_step :: "proxy \<Rightarrow> action \<Rightarrow> proxy option" where
  "proxy_step s (Call m model) =
     Some \<lparr>locks = acquireModelExecutionSlot model (locks s),
           invocations = invocations s @
             [\<lparr>kind = m, begun = False, outcome = None, returned = False, stream = Open,
               cancelling = False, wrapper_released = False\<rparr>]\<rparr>"
| "proxy_step s (TailSettles k) =
     (case qstep (locks s) (SettleTail k) of
        None \<Rightarrow> None
      | Some q \<Rightarrow> Some (s\<lparr>locks := q\<rparr>))"
| "proxy_step s (Granted k) =
     (case qstep (locks s) (Resume k) of
        None \<Rightarrow> None
      | Some q \<Rightarrow> Some (s\<lparr>locks := q\<rparr>))"
| "proxy_step s (Begin k) =
     (if k < length (invocations s) \<and> resumed (slots (locks s) ! k)
         \<and> \<not> begun (invocations s ! k)
      then Some (s\<lparr>invocations := (invocations s)[k := (invocations s ! k)\<lparr>begun := True\<rparr>]\<rparr>)
      else None)"
| "proxy_step s (Settles k fulfilled) =
     (if k < length (invocations s) \<and> begun (invocations s ! k)
         \<and> outcome (invocations s ! k) = None
      then Some (s\<lparr>invocations :=
                     (invocations s)[k := (invocations s ! k)\<lparr>outcome := Some fulfilled\<rparr>]\<rparr>)
      else None)"
| "proxy_step s (Return k) =
     (if k < length (invocations s) \<and> outcome (invocations s ! k) \<noteq> None
         \<and> \<not> returned (invocations s ! k)
      then (let s1 = s\<lparr>invocations := (invocations s)[k := (invocations s ! k)\<lparr>returned := True\<rparr>]\<rparr>
            in if kind (invocations s ! k) = DoGenerate \<or> outcome (invocations s ! k) = Some False
               then Some (s1\<lparr>locks := releaseExecutionSlot k (locks s1)\<rparr>)
               else Some s1)
      else None)"
| "proxy_step s (SourceEnds k failed) =
     (if k < length (invocations s) \<and> kind (invocations s ! k) = DoStream
         \<and> outcome (invocations s ! k) = Some True \<and> stream (invocations s ! k) = Open
      then Some (s\<lparr>invocations :=
                     (invocations s)[k := (invocations s ! k)
                        \<lparr>stream := (if failed then Errored else Closed)\<rparr>]\<rparr>)
      else None)"
| "proxy_step s (Pull k) =
     (if wrapped s k
      then (if stream (invocations s ! k) = Open then Some s else Some (release k s))
      else None)"
| "proxy_step s (Cancel k) =
     (if wrapped s k
      then Some (s\<lparr>invocations :=
                     (invocations s)[k := (invocations s ! k)
                        \<lparr>stream := (if stream (invocations s ! k) = Open then Closed
                                    else stream (invocations s ! k)),
                         cancelling := True\<rparr>]\<rparr>)
      else None)"
| "proxy_step s (Cancelled k) =
     (if k < length (invocations s) \<and> cancelling (invocations s ! k)
      then Some (release k
             (s\<lparr>invocations := (invocations s)[k := (invocations s ! k)\<lparr>cancelling := False\<rparr>]\<rparr>))
      else None)"

fun proxy_run :: "proxy \<Rightarrow> action list \<Rightarrow> proxy option" where
  "proxy_run s [] = Some s"
| "proxy_run s (a # as) = (case proxy_step s a of None \<Rightarrow> None | Some s' \<Rightarrow> proxy_run s' as)"

text \<open>
  The work of an invocation is over when the promise of the original method is rejected,
  or is fulfilled and, for \<^verbatim>\<open>doStream\<close>, the source stream has ended. An invocation is
  outstanding from the call of the original method until its work is over.
\<close>

definition work_over :: "proxy \<Rightarrow> nat \<Rightarrow> bool" where
  "work_over s k \<longleftrightarrow>
     outcome (invocations s ! k) = Some False
     \<or> outcome (invocations s ! k) = Some True
        \<and> (kind (invocations s ! k) = DoGenerate \<or> stream (invocations s ! k) \<noteq> Open)"

definition outstanding :: "proxy \<Rightarrow> nat \<Rightarrow> bool" where
  "outstanding s k \<longleftrightarrow> begun (invocations s ! k) \<and> \<not> work_over s k"

subsection \<open>Invariants of the proxy\<close>

text \<open>
  \<open>call_inv\<close> relates a slot and its invocation: the original method is called only after
  the slot was granted; its promise exists only after the call; the slot is released only
  when the work is over; and a pending \<^verbatim>\<open>reader.cancel\<close> means a fulfilled \<^verbatim>\<open>doStream\<close> whose
  source has ended.
\<close>

definition lock_inv :: "queue \<Rightarrow> bool" where
  "lock_inv q \<longleftrightarrow> queue_inv q \<and> entries_inv q"

lemma lock_inv_no_calls: "lock_inv no_calls"
  by (simp add: lock_inv_def queue_inv_no_calls entries_inv_no_calls)

lemma lock_inv_step: "qstep q c = Some q' \<Longrightarrow> lock_inv q \<Longrightarrow> lock_inv q'"
  by (auto simp: lock_inv_def intro: qstep_inv entries_inv_step)

definition call_inv :: "slot \<Rightarrow> invocation \<Rightarrow> bool" where
  "call_inv x v \<longleftrightarrow>
     (begun v \<longrightarrow> resumed x)
     \<and> (outcome v \<noteq> None \<longrightarrow> begun v)
     \<and> (released x \<longrightarrow>
          outcome v = Some False
          \<or> outcome v = Some True \<and> (kind v = DoGenerate \<or> stream v \<noteq> Open))
     \<and> (cancelling v \<longrightarrow> outcome v = Some True \<and> stream v \<noteq> Open)"

definition proxy_inv :: "proxy \<Rightarrow> bool" where
  "proxy_inv s \<longleftrightarrow>
     length (invocations s) = length (slots (locks s))
     \<and> lock_inv (locks s)
     \<and> (\<forall>k < length (invocations s). call_inv (slots (locks s) ! k) (invocations s ! k))"

lemma proxy_inv_no_invocations: "proxy_inv no_invocations"
  by (simp add: proxy_inv_def no_invocations_def lock_inv_no_calls) (simp add: no_calls_def)

lemma proxy_inv_update:
  assumes "proxy_inv s" "k < length (invocations s)" "call_inv (slots (locks s) ! k) v"
  shows "proxy_inv (s\<lparr>invocations := (invocations s)[k := v]\<rparr>)"
  using assms by (auto simp: proxy_inv_def nth_list_update)

lemma proxy_inv_locks:
  assumes inv: "proxy_inv s" and l: "lock_inv q'"
    and len: "length (slots q') = length (slots (locks s))"
    and res: "\<forall>i < length (slots q'). resumed (slots (locks s) ! i) \<longrightarrow> resumed (slots q' ! i)"
    and rel: "\<forall>i < length (slots q'). released (slots q' ! i) \<longrightarrow>
                released (slots (locks s) ! i) \<or> work_over s i"
  shows "proxy_inv (s\<lparr>locks := q'\<rparr>)"
  unfolding proxy_inv_def
proof (intro conjI allI impI)
  show "length (invocations (s\<lparr>locks := q'\<rparr>)) = length (slots (locks (s\<lparr>locks := q'\<rparr>)))"
    using inv len by (simp add: proxy_inv_def)
  show "lock_inv (locks (s\<lparr>locks := q'\<rparr>))" using l by simp
next
  fix k assume "k < length (invocations (s\<lparr>locks := q'\<rparr>))"
  then have k: "k < length (invocations s)" "k < length (slots q')"
    using inv len by (simp_all add: proxy_inv_def)
  with inv have c: "call_inv (slots (locks s) ! k) (invocations s ! k)"
    by (simp add: proxy_inv_def)
  from res rel k(2)
  have "resumed (slots (locks s) ! k) \<longrightarrow> resumed (slots q' ! k)"
    "released (slots q' ! k) \<longrightarrow> released (slots (locks s) ! k) \<or> work_over s k"
    by blast+
  with c show "call_inv (slots (locks (s\<lparr>locks := q'\<rparr>)) ! k) (invocations (s\<lparr>locks := q'\<rparr>) ! k)"
    by (auto simp: call_inv_def work_over_def split: option.splits)
qed

text \<open>What the release callback of a slot changes.\<close>

lemma releaseExecutionSlot_effect:
  assumes "k < length (slots q)"
  shows "length (slots (releaseExecutionSlot k q)) = length (slots q)"
    and "i < length (slots q) \<Longrightarrow>
           released (slots (releaseExecutionSlot k q) ! i) = (released (slots q ! i) \<or> i = k)"
    and "i < length (slots q) \<Longrightarrow>
           resumed (slots (releaseExecutionSlot k q) ! i) = resumed (slots q ! i)"
    and "i < length (slots q) \<Longrightarrow>
           handle (slots (releaseExecutionSlot k q) ! i) = handle (slots q ! i)"
  using assms by (auto simp: releaseExecutionSlot_def nth_list_update)

lemma proxy_inv_releaseExecutionSlot:
  assumes inv: "proxy_inv s" and k: "k < length (invocations s)"
    and b: "begun (invocations s ! k)" and o: "work_over s k"
  shows "proxy_inv (s\<lparr>locks := releaseExecutionSlot k (locks s)\<rparr>)"
proof -
  from inv k have kl: "k < length (slots (locks s))"
    and c: "call_inv (slots (locks s) ! k) (invocations s ! k)"
    and l: "lock_inv (locks s)"
    by (simp_all add: proxy_inv_def)
  from c b have "resumed (slots (locks s) ! k)" by (simp add: call_inv_def)
  with kl have "qstep (locks s) (Release k) = Some (releaseExecutionSlot k (locks s))" by simp
  then have ll: "lock_inv (releaseExecutionSlot k (locks s))" using l by (rule lock_inv_step)
  show ?thesis
  proof (rule proxy_inv_locks [OF inv ll])
    show "length (slots (releaseExecutionSlot k (locks s))) = length (slots (locks s))"
      using kl by (rule releaseExecutionSlot_effect)
    show "\<forall>i < length (slots (releaseExecutionSlot k (locks s))).
            resumed (slots (locks s) ! i) \<longrightarrow> resumed (slots (releaseExecutionSlot k (locks s)) ! i)"
      using kl by (simp add: releaseExecutionSlot_effect)
    show "\<forall>i < length (slots (releaseExecutionSlot k (locks s))).
            released (slots (releaseExecutionSlot k (locks s)) ! i) \<longrightarrow>
              released (slots (locks s) ! i) \<or> work_over s i"
      using kl o by (auto simp: releaseExecutionSlot_effect)
  qed
qed

lemma proxy_inv_release:
  assumes inv: "proxy_inv s" and k: "k < length (invocations s)"
    and b: "begun (invocations s ! k)" and o: "work_over s k"
  shows "proxy_inv (release k s)"
proof (cases "wrapper_released (invocations s ! k)")
  case True
  with inv show ?thesis by (simp add: release_def)
next
  case False
  let ?s1 = "s\<lparr>locks := releaseExecutionSlot k (locks s)\<rparr>"
  have 1: "proxy_inv ?s1" using inv k b o by (rule proxy_inv_releaseExecutionSlot)
  have kl: "k < length (slots (locks s))" using inv k by (simp add: proxy_inv_def)
  from 1 k have c: "call_inv (slots (locks ?s1) ! k) (invocations ?s1 ! k)"
    by (simp add: proxy_inv_def)
  have "proxy_inv (?s1\<lparr>invocations :=
          (invocations ?s1)[k := (invocations ?s1 ! k)\<lparr>wrapper_released := True\<rparr>]\<rparr>)"
    using 1
  proof (rule proxy_inv_update)
    show "k < length (invocations ?s1)" using k by simp
    show "call_inv (slots (locks ?s1) ! k) ((invocations ?s1 ! k)\<lparr>wrapper_released := True\<rparr>)"
      using c by (simp add: call_inv_def split: option.splits)
  qed
  moreover have "release k s = ?s1\<lparr>invocations :=
          (invocations ?s1)[k := (invocations ?s1 ! k)\<lparr>wrapper_released := True\<rparr>]\<rparr>"
    using False by (simp add: release_def)
  ultimately show ?thesis by simp
qed

subsection \<open>Every step of the proxy keeps the invariants\<close>

lemma call_invD:
  assumes "proxy_inv s" "k < length (invocations s)"
  shows "call_inv (slots (locks s) ! k) (invocations s ! k)"
  using assms by (simp add: proxy_inv_def)

lemma proxy_inv_call:
  assumes inv: "proxy_inv s"
  shows "proxy_inv \<lparr>locks = acquireModelExecutionSlot model (locks s),
           invocations = invocations s @
             [\<lparr>kind = m, begun = False, outcome = None, returned = False, stream = Open,
               cancelling = False, wrapper_released = False\<rparr>]\<rparr>"
proof -
  let ?q = "acquireModelExecutionSlot model (locks s)"
  have "qstep (locks s) (Acquire model) = Some ?q" by simp
  moreover from inv have "lock_inv (locks s)" by (simp add: proxy_inv_def)
  ultimately have l: "lock_inv ?q" by (rule lock_inv_step)
  from inv have len: "length (invocations s) = length (slots (locks s))"
    by (simp add: proxy_inv_def)
  have sl: "slots ?q = slots (locks s) @
      [\<lparr>handle = model, previous = modelExecutionQueue (locks s) model, current_resolved = False,
        queueTail_resolved = False, resumed = False, released = False\<rparr>]"
    by (simp add: acquireModelExecutionSlot_def)
  show ?thesis
    unfolding proxy_inv_def
  proof (intro conjI allI impI)
    fix k
    assume "k < length (invocations \<lparr>locks = ?q, invocations = invocations s @
             [\<lparr>kind = m, begun = False, outcome = None, returned = False, stream = Open,
               cancelling = False, wrapper_released = False\<rparr>]\<rparr>)"
    then consider "k < length (invocations s)" | "k = length (invocations s)"
      by (auto simp: less_Suc_eq)
    then show "call_inv (slots (locks \<lparr>locks = ?q, invocations = invocations s @
             [\<lparr>kind = m, begun = False, outcome = None, returned = False, stream = Open,
               cancelling = False, wrapper_released = False\<rparr>]\<rparr>) ! k)
          (invocations \<lparr>locks = ?q, invocations = invocations s @
             [\<lparr>kind = m, begun = False, outcome = None, returned = False, stream = Open,
               cancelling = False, wrapper_released = False\<rparr>]\<rparr> ! k)"
    proof cases
      case 1
      with call_invD [OF inv 1] len show ?thesis by (simp add: sl nth_append)
    next
      case 2
      with len show ?thesis by (simp add: sl nth_append call_inv_def)
    qed
  qed (use l len sl in simp_all)
qed

lemma proxy_inv_flag_step:
  assumes inv: "proxy_inv s" and st: "qstep (locks s) c = Some q"
    and c: "c = SettleTail k \<or> c = Resume k"
  shows "proxy_inv (s\<lparr>locks := q\<rparr>)"
proof -
  from inv have "lock_inv (locks s)" by (simp add: proxy_inv_def)
  with st have l: "lock_inv q" by (rule lock_inv_step)
  from c st have k: "k < length (slots (locks s))"
    and q: "q = (locks s)\<lparr>slots := (slots (locks s))[k := (slots (locks s) ! k)\<lparr>queueTail_resolved := True\<rparr>]\<rparr>
         \<or> q = (locks s)\<lparr>slots := (slots (locks s))[k := (slots (locks s) ! k)\<lparr>resumed := True\<rparr>]\<rparr>"
    by (auto split: if_splits)
  show ?thesis
  proof (rule proxy_inv_locks [OF inv l])
    show "length (slots q) = length (slots (locks s))" using q by auto
    show "\<forall>i < length (slots q). resumed (slots (locks s) ! i) \<longrightarrow> resumed (slots q ! i)"
      using q k by (auto simp: nth_list_update)
    show "\<forall>i < length (slots q). released (slots q ! i) \<longrightarrow>
            released (slots (locks s) ! i) \<or> work_over s i"
      using q k by (auto simp: nth_list_update split: if_splits)
  qed
qed

lemma work_over_update:
  "k < length (invocations s) \<Longrightarrow>
     work_over (s\<lparr>invocations := (invocations s)[k := v]\<rparr>) k
       \<longleftrightarrow> outcome v = Some False
           \<or> outcome v = Some True \<and> (kind v = DoGenerate \<or> stream v \<noteq> Open)"
  by (simp add: work_over_def)

lemma proxy_inv_step:
  assumes st: "proxy_step s a = Some s'" and inv: "proxy_inv s"
  shows "proxy_inv s'"
proof (cases a)
  case (Call m model)
  with st inv show ?thesis by (auto intro: proxy_inv_call)
next
  case (TailSettles k)
  with st obtain q where q: "qstep (locks s) (SettleTail k) = Some q" "s' = s\<lparr>locks := q\<rparr>"
    by (auto split: option.splits)
  from inv q(1) have "proxy_inv (s\<lparr>locks := q\<rparr>)" by (rule proxy_inv_flag_step) simp
  with q(2) show ?thesis by simp
next
  case (Granted k)
  with st obtain q where q: "qstep (locks s) (Resume k) = Some q" "s' = s\<lparr>locks := q\<rparr>"
    by (auto split: option.splits)
  from inv q(1) have "proxy_inv (s\<lparr>locks := q\<rparr>)" by (rule proxy_inv_flag_step) simp
  with q(2) show ?thesis by simp
next
  case (Begin k)
  with st have k: "k < length (invocations s)" "resumed (slots (locks s) ! k)"
    and s': "s' = s\<lparr>invocations := (invocations s)[k := (invocations s ! k)\<lparr>begun := True\<rparr>]\<rparr>"
    by (auto split: if_splits)
  from call_invD [OF inv k(1)] k(2)
  have "call_inv (slots (locks s) ! k) ((invocations s ! k)\<lparr>begun := True\<rparr>)"
    by (simp add: call_inv_def)
  with inv k(1) show ?thesis unfolding s' by (rule proxy_inv_update)
next
  case (Settles k fulfilled)
  with st have k: "k < length (invocations s)" "begun (invocations s ! k)"
      "outcome (invocations s ! k) = None"
    and s': "s' = s\<lparr>invocations :=
                     (invocations s)[k := (invocations s ! k)\<lparr>outcome := Some fulfilled\<rparr>]\<rparr>"
    by (auto split: if_splits)
  from call_invD [OF inv k(1)] k(2,3)
  have "call_inv (slots (locks s) ! k) ((invocations s ! k)\<lparr>outcome := Some fulfilled\<rparr>)"
    by (simp add: call_inv_def)
  with inv k(1) show ?thesis unfolding s' by (rule proxy_inv_update)
next
  case (Return k)
  let ?s1 = "s\<lparr>invocations := (invocations s)[k := (invocations s ! k)\<lparr>returned := True\<rparr>]\<rparr>"
  from Return st have k: "k < length (invocations s)" "outcome (invocations s ! k) \<noteq> None"
    and s': "s' = (if kind (invocations s ! k) = DoGenerate \<or> outcome (invocations s ! k) = Some False
                   then ?s1\<lparr>locks := releaseExecutionSlot k (locks ?s1)\<rparr> else ?s1)"
    by (auto simp: Let_def split: if_splits)
  from call_invD [OF inv k(1)]
  have c: "call_inv (slots (locks s) ! k) ((invocations s ! k)\<lparr>returned := True\<rparr>)"
    and b: "begun (invocations s ! k)"
    using k(2) by (simp_all add: call_inv_def)
  from inv k(1) c have 1: "proxy_inv ?s1" by (rule proxy_inv_update)
  show ?thesis
  proof (cases "kind (invocations s ! k) = DoGenerate \<or> outcome (invocations s ! k) = Some False")
    case True
    have "proxy_inv (?s1\<lparr>locks := releaseExecutionSlot k (locks ?s1)\<rparr>)"
      using 1
    proof (rule proxy_inv_releaseExecutionSlot)
      show "k < length (invocations ?s1)" using k(1) by simp
      show "begun (invocations ?s1 ! k)" using k(1) b by simp
      show "work_over ?s1 k" using k True by (auto simp: work_over_update)
    qed
    with True s' show ?thesis by simp
  next
    case False
    with 1 s' show ?thesis by simp
  qed
next
  case (SourceEnds k failed)
  with st have k: "k < length (invocations s)" "outcome (invocations s ! k) = Some True"
    and s': "s' = s\<lparr>invocations := (invocations s)[k := (invocations s ! k)
                        \<lparr>stream := (if failed then Errored else Closed)\<rparr>]\<rparr>"
    by (auto split: if_splits)
  from call_invD [OF inv k(1)] k(2)
  have "call_inv (slots (locks s) ! k)
          ((invocations s ! k)\<lparr>stream := (if failed then Errored else Closed)\<rparr>)"
    by (simp add: call_inv_def)
  with inv k(1) show ?thesis unfolding s' by (rule proxy_inv_update)
next
  case (Pull k)
  with st have w: "wrapped s k"
    and s': "s' = (if stream (invocations s ! k) = Open then s else release k s)"
    by (auto split: if_splits)
  from w have k: "k < length (invocations s)" "outcome (invocations s ! k) = Some True"
    by (simp_all add: wrapped_def)
  show ?thesis
  proof (cases "stream (invocations s ! k) = Open")
    case True
    with s' inv show ?thesis by simp
  next
    case False
    have "proxy_inv (release k s)"
      using inv k(1)
    proof (rule proxy_inv_release)
      show "begun (invocations s ! k)"
        using call_invD [OF inv k(1)] k(2) by (simp add: call_inv_def)
      show "work_over s k" using False k(2) by (simp add: work_over_def)
    qed
    with False s' show ?thesis by simp
  qed
next
  case (Cancel k)
  with st have w: "wrapped s k"
    and s': "s' = s\<lparr>invocations :=
                     (invocations s)[k := (invocations s ! k)
                        \<lparr>stream := (if stream (invocations s ! k) = Open then Closed
                                    else stream (invocations s ! k)),
                         cancelling := True\<rparr>]\<rparr>"
    by (auto split: if_splits)
  from w have k: "k < length (invocations s)" "outcome (invocations s ! k) = Some True"
    by (simp_all add: wrapped_def)
  from call_invD [OF inv k(1)] k(2)
  have "call_inv (slots (locks s) ! k) ((invocations s ! k)
                        \<lparr>stream := (if stream (invocations s ! k) = Open then Closed
                                    else stream (invocations s ! k)),
                         cancelling := True\<rparr>)"
    by (simp add: call_inv_def)
  with inv k(1) show ?thesis unfolding s' by (rule proxy_inv_update)
next
  case (Cancelled k)
  let ?s1 = "s\<lparr>invocations := (invocations s)[k := (invocations s ! k)\<lparr>cancelling := False\<rparr>]\<rparr>"
  from Cancelled st have k: "k < length (invocations s)" "cancelling (invocations s ! k)"
    and s': "s' = release k ?s1"
    by (auto split: if_splits)
  from call_invD [OF inv k(1)] k(2)
  have c: "call_inv (slots (locks s) ! k) ((invocations s ! k)\<lparr>cancelling := False\<rparr>)"
    and o: "outcome (invocations s ! k) = Some True" "stream (invocations s ! k) \<noteq> Open"
    and b: "begun (invocations s ! k)"
    by (auto simp: call_inv_def)
  from inv k(1) c have 1: "proxy_inv ?s1" by (rule proxy_inv_update)
  have "proxy_inv (release k ?s1)"
    using 1
  proof (rule proxy_inv_release)
    show "k < length (invocations ?s1)" using k(1) by simp
    show "begun (invocations ?s1 ! k)" using k(1) b by simp
    show "work_over ?s1 k" using k(1) o by (simp add: work_over_update)
  qed
  with s' show ?thesis by simp
qed

lemma proxy_inv_run: "proxy_run s as = Some s' \<Longrightarrow> proxy_inv s \<Longrightarrow> proxy_inv s'"
proof (induction as arbitrary: s)
  case Nil
  then show ?case by simp
next
  case (Cons a as)
  from Cons.prems(1) obtain s1 where s1: "proxy_step s a = Some s1" "proxy_run s1 as = Some s'"
    by (auto split: option.splits)
  from s1(1) Cons.prems(2) have "proxy_inv s1" by (rule proxy_inv_step)
  with Cons.IH s1(2) show ?case by blast
qed

subsection \<open>Order of work and release\<close>

lemma proxy_run_append:
  "proxy_run s (xs @ ys) = (case proxy_run s xs of None \<Rightarrow> None | Some s' \<Rightarrow> proxy_run s' ys)"
  by (induction xs arbitrary: s) (auto split: option.splits)

text \<open>A step of the proxy leaves the queue as it is or takes one step of the queue.\<close>

lemma proxy_step_locks:
  assumes st: "proxy_step s a = Some s'" and inv: "proxy_inv s"
  shows "locks s' = locks s \<or> (\<exists>c. qstep (locks s) c = Some (locks s'))"
proof -
  have rel: "q = locks s \<or> (\<exists>c. qstep (locks s) c = Some q)"
    if "k < length (invocations s)" "outcome (invocations s ! k) \<noteq> None"
      "q = locks s \<or> q = releaseExecutionSlot k (locks s)" for k q
  proof -
    from call_invD [OF inv that(1)] that(2) have "resumed (slots (locks s) ! k)"
      by (simp add: call_inv_def)
    moreover from inv that(1) have "k < length (slots (locks s))" by (simp add: proxy_inv_def)
    ultimately have r: "qstep (locks s) (Release k) = Some (releaseExecutionSlot k (locks s))"
      by simp
    from that(3) show ?thesis
    proof
      assume "q = locks s"
      then show ?thesis by (rule disjI1)
    next
      assume "q = releaseExecutionSlot k (locks s)"
      with r have "qstep (locks s) (Release k) = Some q" by (simp del: qstep.simps)
      then show ?thesis by blast
    qed
  qed
  show ?thesis
  proof (cases a)
    case (Call m model)
    with st have "qstep (locks s) (Acquire model) = Some (locks s')" by auto
    then show ?thesis by blast
  next
    case (TailSettles k)
    with st have "qstep (locks s) (SettleTail k) = Some (locks s')"
      by (auto simp del: qstep.simps split: option.splits)
    then show ?thesis by blast
  next
    case (Granted k)
    with st have "qstep (locks s) (Resume k) = Some (locks s')"
      by (auto simp del: qstep.simps split: option.splits)
    then show ?thesis by blast
  next
    case (Begin k)
    with st show ?thesis by (auto split: if_splits)
  next
    case (Settles k fulfilled)
    with st show ?thesis by (auto split: if_splits)
  next
    case (Return k)
    with st have "k < length (invocations s)" "outcome (invocations s ! k) \<noteq> None"
      "locks s' = locks s \<or> locks s' = releaseExecutionSlot k (locks s)"
      by (auto simp: Let_def split: if_splits)
    from rel [OF this] show ?thesis .
  next
    case (SourceEnds k failed)
    with st show ?thesis by (auto split: if_splits)
  next
    case (Pull k)
    with st have "k < length (invocations s)" "outcome (invocations s ! k) \<noteq> None"
      "locks s' = locks s \<or> locks s' = releaseExecutionSlot k (locks s)"
      by (auto simp: wrapped_def release_def split: if_splits)
    from rel [OF this] show ?thesis .
  next
    case (Cancel k)
    with st show ?thesis by (auto split: if_splits)
  next
    case (Cancelled k)
    with st have k: "k < length (invocations s)" "cancelling (invocations s ! k)"
      and l: "locks s' = locks s \<or> locks s' = releaseExecutionSlot k (locks s)"
      by (auto simp: release_def split: if_splits)
    from call_invD [OF inv k(1)] k(2) have "outcome (invocations s ! k) \<noteq> None"
      by (simp add: call_inv_def)
    from rel [OF k(1) this l] show ?thesis .
  qed
qed

lemma proxy_step_handles:
  assumes "proxy_step s a = Some s'" "proxy_inv s"
  shows "length (slots (locks s)) \<le> length (slots (locks s'))
    \<and> (\<forall>i < length (slots (locks s)). handle (slots (locks s') ! i) = handle (slots (locks s) ! i))"
proof -
  from proxy_step_locks [OF assms]
  consider "locks s' = locks s" | c where "qstep (locks s) c = Some (locks s')" by blast
  then show ?thesis
  proof cases
    case 1
    then show ?thesis by simp
  next
    case 2
    then show ?thesis by (rule qstep_handles)
  qed
qed

lemma proxy_run_handles:
  "proxy_run s as = Some s' \<Longrightarrow> proxy_inv s \<Longrightarrow>
     length (slots (locks s)) \<le> length (slots (locks s'))
     \<and> (\<forall>i < length (slots (locks s)). handle (slots (locks s') ! i) = handle (slots (locks s) ! i))"
proof (induction as arbitrary: s)
  case Nil
  then show ?case by simp
next
  case (Cons a as)
  from Cons.prems(1) obtain s1 where s1: "proxy_step s a = Some s1" "proxy_run s1 as = Some s'"
    by (auto split: option.splits)
  from s1(1) Cons.prems(2) have i1: "proxy_inv s1" by (rule proxy_inv_step)
  from proxy_step_handles [OF s1(1) Cons.prems(2)] Cons.IH [OF s1(2) i1] show ?case by auto
qed

text \<open>The wrapped call and the reading of its stream happen while the slot is held.\<close>

lemma outstanding_holding:
  assumes "proxy_inv s" "k < length (invocations s)" "outstanding s k"
  shows "holding (locks s) k"
  using call_invD [OF assms(1,2)] assms(3)
  by (auto simp: call_inv_def outstanding_def work_over_def holding_def)

lemma granted_after_release:
  assumes inv: "proxy_inv s" and k: "k < length (invocations s)" and jk: "j < k"
    and h: "handle (slots (locks s) ! j) = handle (slots (locks s) ! k)"
    and r: "resumed (slots (locks s) ! k)"
  shows "released (slots (locks s) ! j) \<and> work_over s j"
proof -
  from inv have "fifo (locks s)" and len: "length (invocations s) = length (slots (locks s))"
    by (simp_all add: proxy_inv_def lock_inv_def queue_inv_def)
  with k r have "earlier_released (locks s) k" by (simp add: fifo_def)
  with jk h have rel: "released (slots (locks s) ! j)" by (simp add: earlier_released_def)
  from jk k have "j < length (invocations s)" by simp
  from call_invD [OF inv this] rel show ?thesis by (simp add: call_inv_def work_over_def)
qed

lemma begin_after_release:
  assumes run: "proxy_run no_invocations (pre @ Begin k # post) = Some s"
    and jk: "j < k" and h: "handle (slots (locks s) ! j) = handle (slots (locks s) ! k)"
  shows "\<exists>s1. proxy_run no_invocations pre = Some s1
           \<and> released (slots (locks s1) ! j) \<and> work_over s1 j"
proof -
  from run obtain s1 s2 where s1: "proxy_run no_invocations pre = Some s1"
    and s2: "proxy_step s1 (Begin k) = Some s2" and s: "proxy_run s2 post = Some s"
    by (auto simp: proxy_run_append split: option.splits)
  from s1 proxy_inv_no_invocations have i1: "proxy_inv s1" by (rule proxy_inv_run)
  from s2 i1 have i2: "proxy_inv s2" by (rule proxy_inv_step)
  from s2 have k: "k < length (invocations s1)" "resumed (slots (locks s1) ! k)"
    by (auto split: if_splits)
  from i1 k(1) have kl: "k < length (slots (locks s1))" by (simp add: proxy_inv_def)
  from proxy_step_handles [OF s2 i1] proxy_run_handles [OF s i2] kl jk
  have "handle (slots (locks s) ! j) = handle (slots (locks s1) ! j)"
    "handle (slots (locks s) ! k) = handle (slots (locks s1) ! k)"
    by auto
  with h have "handle (slots (locks s1) ! j) = handle (slots (locks s1) ! k)" by simp
  from granted_after_release [OF i1 k(1) jk this k(2)] s1 show ?thesis by blast
qed

lemma idle_handle_begins:
  assumes inv: "proxy_inv s"
    and idle: "\<forall>j < length (invocations s). handle (slots (locks s) ! j) = model \<longrightarrow>
                 released (slots (locks s) ! j)"
  shows "\<exists>s'. proxy_run s [Call m model, Granted (length (invocations s)),
                           Begin (length (invocations s))] = Some s'
           \<and> outstanding s' (length (invocations s))"
proof -
  from inv have len: "length (invocations s) = length (slots (locks s))"
    and q: "queue_inv (locks s)" and e: "entries_inv (locks s)"
    by (simp_all add: proxy_inv_def lock_inv_def)
  have "modelExecutionQueue (locks s) model = None"
  proof (cases "modelExecutionQueue (locks s) model")
    case None
    then show ?thesis .
  next
    case (Some k)
    with q have "k < length (slots (locks s))" "handle (slots (locks s) ! k) = model"
      unfolding queue_inv_def map_inv_def by blast+
    with idle len have "released (slots (locks s) ! k)" by simp
    with e Some show ?thesis by (simp add: entries_inv_def)
  qed
  then show ?thesis
    by (simp add: len nth_append acquireModelExecutionSlot_def previous_resolved_def
                  outstanding_def work_over_def)
qed

subsection \<open>Claim C8\<close>

text \<open>
  C8. In every state that calls through the proxy can reach:
  \<^item> an outstanding invocation (its original \<^verbatim>\<open>doGenerate\<close> or \<^verbatim>\<open>doStream\<close> was called and the
    call or its stream has not settled) holds its execution slot;
  \<^item> two invocations on the same handle are never outstanding together;
  \<^item> a slot is granted only when every earlier invocation on the same handle has called
    its release callback and the work of that invocation is over;
  \<^item> in the run itself, before the step in which an invocation calls its original method,
    every earlier invocation on the handle had called its release callback and its work
    was over;
  \<^item> a handle all of whose invocations have released (or that was never used) lets a new
    invocation begin at once, whatever the invocations on other handles are doing.
\<close>

theorem execution_slots_fifo:
  assumes "proxy_run no_invocations as = Some s"
  shows "(\<forall>k. k < length (invocations s) \<and> outstanding s k \<longrightarrow> holding (locks s) k)
       \<and> (\<forall>j k. j < length (invocations s) \<and> k < length (invocations s)
             \<and> handle (slots (locks s) ! j) = handle (slots (locks s) ! k)
             \<and> outstanding s j \<and> outstanding s k \<longrightarrow> j = k)
       \<and> (\<forall>j k. j < k \<and> k < length (invocations s)
             \<and> handle (slots (locks s) ! j) = handle (slots (locks s) ! k)
             \<and> resumed (slots (locks s) ! k) \<longrightarrow>
               released (slots (locks s) ! j) \<and> work_over s j)
       \<and> (\<forall>pre post j k. as = pre @ Begin k # post \<and> j < k
             \<and> handle (slots (locks s) ! j) = handle (slots (locks s) ! k) \<longrightarrow>
               (\<exists>s1. proxy_run no_invocations pre = Some s1
                    \<and> released (slots (locks s1) ! j) \<and> work_over s1 j))
       \<and> (\<forall>m model.
             (\<forall>j < length (invocations s). handle (slots (locks s) ! j) = model \<longrightarrow>
                released (slots (locks s) ! j)) \<longrightarrow>
             (\<exists>s'. proxy_run s [Call m model, Granted (length (invocations s)),
                                Begin (length (invocations s))] = Some s'
                  \<and> outstanding s' (length (invocations s))))"
proof -
  from assms proxy_inv_no_invocations have inv: "proxy_inv s" by (rule proxy_inv_run)
  have hold: "holding (locks s) k" if "k < length (invocations s)" "outstanding s k" for k
    using inv that by (rule outstanding_holding)
  have order: "released (slots (locks s) ! j) \<and> work_over s j"
    if "j < k" "k < length (invocations s)"
      "handle (slots (locks s) ! j) = handle (slots (locks s) ! k)"
      "resumed (slots (locks s) ! k)" for j k
    using granted_after_release [OF inv that(2,1,3,4)] .
  have one: "j = k"
    if "j < length (invocations s)" "k < length (invocations s)"
      "handle (slots (locks s) ! j) = handle (slots (locks s) ! k)"
      "outstanding s j" "outstanding s k" for j k
  proof (rule ccontr)
    assume "j \<noteq> k"
    then consider "j < k" | "k < j" by linarith
    then show False
    proof cases
      case 1
      from hold [OF that(2,5)] have "resumed (slots (locks s) ! k)" by (simp add: holding_def)
      from order [OF 1 that(2,3) this] that(4) show False by (simp add: outstanding_def)
    next
      case 2
      from hold [OF that(1,4)] have "resumed (slots (locks s) ! j)" by (simp add: holding_def)
      from order [OF 2 that(1) that(3) [symmetric] this] that(5) show False
        by (simp add: outstanding_def)
    qed
  qed
  have trace: "\<exists>s1. proxy_run no_invocations pre = Some s1
                  \<and> released (slots (locks s1) ! j) \<and> work_over s1 j"
    if "as = pre @ Begin k # post" "j < k"
      "handle (slots (locks s) ! j) = handle (slots (locks s) ! k)" for pre post j k
    using begin_after_release [of pre k post s j] assms that by simp
  have idle: "\<exists>s'. proxy_run s [Call m model, Granted (length (invocations s)),
                                Begin (length (invocations s))] = Some s'
                  \<and> outstanding s' (length (invocations s))"
    if "\<forall>j < length (invocations s). handle (slots (locks s) ! j) = model \<longrightarrow>
          released (slots (locks s) ! j)" for m model
    using idle_handle_begins [OF inv that] .
  have c1: "\<forall>k. k < length (invocations s) \<and> outstanding s k \<longrightarrow> holding (locks s) k"
    using hold by blast
  have c2: "\<forall>j k. j < length (invocations s) \<and> k < length (invocations s)
             \<and> handle (slots (locks s) ! j) = handle (slots (locks s) ! k)
             \<and> outstanding s j \<and> outstanding s k \<longrightarrow> j = k"
    using one by blast
  have c3: "\<forall>j k. j < k \<and> k < length (invocations s)
             \<and> handle (slots (locks s) ! j) = handle (slots (locks s) ! k)
             \<and> resumed (slots (locks s) ! k) \<longrightarrow>
               released (slots (locks s) ! j) \<and> work_over s j"
    using order by blast
  have c4: "\<forall>pre post j k. as = pre @ Begin k # post \<and> j < k
             \<and> handle (slots (locks s) ! j) = handle (slots (locks s) ! k) \<longrightarrow>
               (\<exists>s1. proxy_run no_invocations pre = Some s1
                    \<and> released (slots (locks s1) ! j) \<and> work_over s1 j)"
    using trace by blast
  have c5: "\<forall>m model.
             (\<forall>j < length (invocations s). handle (slots (locks s) ! j) = model \<longrightarrow>
                released (slots (locks s) ! j)) \<longrightarrow>
             (\<exists>s'. proxy_run s [Call m model, Granted (length (invocations s)),
                                Begin (length (invocations s))] = Some s'
                  \<and> outstanding s' (length (invocations s)))"
    using idle by blast
  show ?thesis by (rule conjI [OF c1 conjI [OF c2 conjI [OF c3 conjI [OF c4 c5]]]])
qed

lemmas proxy_eval = no_invocations_def no_calls_def acquireModelExecutionSlot_def
  releaseExecutionSlot_def previous_resolved_def wrapped_def release_def Let_def

text \<open>
  A stream call and a generate call on handle 7 and a generate call on handle 8: the second
  call on 7 begins after the stream of the first has ended and was released, while the
  call on 8 is still outstanding.
\<close>

theorem execution_slots_fifo_witness:
  "\<exists>s. proxy_run no_invocations
          [Call DoStream 7, Call DoGenerate 7, Call DoGenerate 8, Granted 0, Begin 0, Granted 2,
           Begin 2, Settles 0 True, Return 0, SourceEnds 0 False, Pull 0, TailSettles 0,
           Granted 1, Begin 1] = Some s
       \<and> released (slots (locks s) ! 0) \<and> work_over s 0
       \<and> outstanding s 1 \<and> holding (locks s) 1 \<and> outstanding s 2 \<and> holding (locks s) 2
       \<and> (\<exists>s1. proxy_run no_invocations
                  [Call DoStream 7, Call DoGenerate 7, Call DoGenerate 8, Granted 0, Begin 0,
                   Granted 2, Begin 2, Settles 0 True, Return 0, SourceEnds 0 False, Pull 0,
                   TailSettles 0, Granted 1] = Some s1
              \<and> released (slots (locks s1) ! 0) \<and> work_over s1 0)
       \<and> (\<exists>s'. proxy_run s [Call DoStream 9, Granted 3, Begin 3] = Some s' \<and> outstanding s' 3)"
proof -
  let ?pre = "[Call DoStream 7, Call DoGenerate 7, Call DoGenerate 8, Granted 0, Begin 0,
               Granted 2, Begin 2, Settles 0 True, Return 0, SourceEnds 0 False, Pull 0,
               TailSettles 0, Granted 1]"
  define s where "s = the (proxy_run no_invocations (?pre @ [Begin 1]))"
  have s: "proxy_run no_invocations (?pre @ [Begin 1]) = Some s"
    unfolding s_def by (simp add: proxy_eval)
  have len: "length (invocations s) = 3"
    unfolding s_def by (simp add: proxy_eval)
  have hd: "handle (slots (locks s) ! 0) = 7" "handle (slots (locks s) ! 1) = 7"
    "handle (slots (locks s) ! 2) = 8"
    unfolding s_def by (simp_all add: proxy_eval)
  have fl: "resumed (slots (locks s) ! 1)" "begun (invocations s ! 1)" "begun (invocations s ! 2)"
    "outcome (invocations s ! 1) = None" "outcome (invocations s ! 2) = None"
    unfolding s_def by (simp_all add: proxy_eval)
  note all = execution_slots_fifo [OF s]
  note c1 = all [THEN conjunct1]
  note c3 = all [THEN conjunct2, THEN conjunct2, THEN conjunct1]
  note c4 = all [THEN conjunct2, THEN conjunct2, THEN conjunct2, THEN conjunct1]
  note c5 = all [THEN conjunct2, THEN conjunct2, THEN conjunct2, THEN conjunct2]
  have o: "outstanding s 1" "outstanding s 2"
    using fl by (simp_all add: outstanding_def work_over_def)
  have l: "(1::nat) < length (invocations s)" "(2::nat) < length (invocations s)"
    by (simp_all add: len)
  from c1 o l have h: "holding (locks s) 1" "holding (locks s) 2" by blast+
  have "0 < (1::nat) \<and> 1 < length (invocations s)
      \<and> handle (slots (locks s) ! 0) = handle (slots (locks s) ! 1)
      \<and> resumed (slots (locks s) ! 1)"
    using l hd fl by simp
  with c3 have r: "released (slots (locks s) ! 0) \<and> work_over s 0" by blast
  have "?pre @ [Begin 1] = ?pre @ Begin 1 # [] \<and> 0 < (1::nat)
      \<and> handle (slots (locks s) ! 0) = handle (slots (locks s) ! 1)"
    using hd by simp
  with c4 have t: "\<exists>s1. proxy_run no_invocations ?pre = Some s1
            \<and> released (slots (locks s1) ! 0) \<and> work_over s1 0"
    by blast
  have "\<forall>j < length (invocations s). handle (slots (locks s) ! j) = 9 \<longrightarrow>
          released (slots (locks s) ! j)"
    using len hd by (auto simp: less_Suc_eq numeral_3_eq_3 numeral_2_eq_2)
  with c5 have "\<exists>s'. proxy_run s [Call DoStream 9, Granted (length (invocations s)),
      Begin (length (invocations s))] = Some s' \<and> outstanding s' (length (invocations s))"
    by blast
  then have i: "\<exists>s'. proxy_run s [Call DoStream 9, Granted 3, Begin 3] = Some s' \<and> outstanding s' 3"
    by (simp only: len)
  from s have s': "proxy_run no_invocations
          [Call DoStream 7, Call DoGenerate 7, Call DoGenerate 8, Granted 0, Begin 0, Granted 2,
           Begin 2, Settles 0 True, Return 0, SourceEnds 0 False, Pull 0, TailSettles 0,
           Granted 1, Begin 1] = Some s"
    by (simp only: append.simps)
  from r have r1: "released (slots (locks s) ! 0)" and r2: "work_over s 0" by simp_all
  show ?thesis
    by (rule exI [of _ s])
       (rule conjI [OF s' conjI [OF r1 conjI [OF r2 conjI [OF o(1) conjI [OF h(1)
          conjI [OF o(2) conjI [OF h(2) conjI [OF t i]]]]]]]])
qed

end
